theory Spec2Isabelle
  imports Complex_Main "HOL-Library.Word"
begin

section \<open>Normalized compression distance: the class \<open>ncd<T>\<close> of distances/ncd.hpp\<close>

text \<open>
  The template parameter \<open>T\<close> of the class is the type variable \<open>'t\<close>, an ordered field:
  \<open>static_cast<T>\<close> of a \<open>std::size_t\<close> is \<open>of_nat (unat w)\<close>, and the arithmetic of
  \<open>T\<close> is exact (rounding of a floating-point \<open>T\<close> is outside the model, and so is a
  division by a compressed size of zero, which HOL evaluates to 0).
  \<open>std::size_t\<close> is a 64-bit word: its subtraction wraps around.
  Positions in vectors and matrices are natural numbers.
\<close>

type_synonym size_t = "64 word"

datatype compresstype = gzip | bzip2

datatype compresslevel = defaultcompression | bestspeed | bestcompression

text \<open>The three presets of \<open>bio::gzip\<close> that the class passes to \<open>bio::gzip_params\<close>.\<close>

datatype gzip_params = default_compression | best_speed | best_compression

text \<open>
  Every \<open>throw\<close> of the file raises \<open>exception::parameter\<close> with a message (the argument
  of the translation macro). An exception that leaves a thread of the thread group ends
  the process: \<open>terminate\<close>.
\<close>

datatype failure = parameter string | terminate

text \<open>
  What the class takes from outside, as parameters: the two compressors of
  boost::iostreams (the number of bytes the counter behind the compressor has seen, for
  a parameter set and a byte stream), the file system (\<open>None\<close>: the file stream is not
  open), the number of hardware threads, the contents of the storage that a ublas vector
  or matrix constructed with a size starts with (the constructors assign nothing), and
  the order in which the threads of the thread group take their turns.
\<close>

record 't runtime =
  gzip_compressor :: "gzip_params \<Rightarrow> string \<Rightarrow> size_t"
  bzip2_compressor :: "nat \<Rightarrow> string \<Rightarrow> size_t"
  ifstream :: "string \<Rightarrow> string option"
  hardware_concurrency :: nat
  vector_storage :: "nat \<Rightarrow> size_t"
  matrix_storage :: "nat \<times> nat \<Rightarrow> 't"
  schedule :: "nat list"

text \<open>
  A matrix maps the positions it has to their values. A symmetric matrix with upper
  storage has the positions \<open>(i, j)\<close> with \<open>i \<le> j\<close>, and an access to \<open>(i, j)\<close> goes to
  \<open>(min i j, max i j)\<close>.
\<close>

type_synonym 't matrix = "nat \<times> nat \<Rightarrow> 't option"

definition ublas_matrix :: "'t runtime \<Rightarrow> nat \<Rightarrow> 't matrix" where
  "ublas_matrix rt n = (\<lambda>(i, j). if i < n \<and> j < n then Some (matrix_storage rt (i, j)) else None)"

definition ublas_symmetric_matrix :: "'t runtime \<Rightarrow> nat \<Rightarrow> 't matrix" where
  "ublas_symmetric_matrix rt n =
     (\<lambda>(i, j). if i \<le> j \<and> j < n then Some (matrix_storage rt (i, j)) else None)"

definition ublas_vector :: "'t runtime \<Rightarrow> nat \<Rightarrow> size_t list" where
  "ublas_vector rt n = map (vector_storage rt) [0..<n]"

definition symmetric_at :: "'t matrix \<Rightarrow> nat \<Rightarrow> nat \<Rightarrow> 't option" where
  "symmetric_at m i j = m (min i j, max i j)"

text \<open>The member variables of the class. The multimap is the list of its entries in
  the order of insertion; the entries of a key, in that order, are the key's range.\<close>

record 't ncd =
  m_compress :: compresstype
  m_gzipparam :: gzip_params
  m_bzip2param :: nat
  m_symmetric :: "'t matrix"
  m_unsymmetric :: "'t matrix"
  m_wavefront :: "(nat \<times> (nat \<times> nat)) list"
  m_cache :: "size_t list"
  m_sources :: "string list"
  m_isfile :: bool

definition ncd_init :: "compresstype \<Rightarrow> 't ncd" where
  "ncd_init p_compress =
     \<lparr> m_compress = p_compress, m_gzipparam = default_compression, m_bzip2param = 6,
       m_symmetric = Map.empty, m_unsymmetric = Map.empty, m_wavefront = [],
       m_cache = [], m_sources = [], m_isfile = False \<rparr>"

definition ncd_default :: "'t ncd" where
  "ncd_default = ncd_init gzip"

definition setCompressionLevel :: "compresslevel \<Rightarrow> 't ncd \<Rightarrow> 't ncd" where
  "setCompressionLevel p_level eng =
     (case p_level of
        defaultcompression \<Rightarrow> eng\<lparr>m_gzipparam := default_compression, m_bzip2param := 6\<rparr>
      | bestspeed \<Rightarrow> eng\<lparr>m_gzipparam := best_speed, m_bzip2param := 1\<rparr>
      | bestcompression \<Rightarrow> eng\<lparr>m_gzipparam := best_compression, m_bzip2param := 9\<rparr>)"

subsection \<open>deflate\<close>

text \<open>
  \<open>std::istream_iterator<char>\<close> reads with the extraction operator, which skips white
  space: the bytes copied from a file are its bytes that are not white space. The file
  stream is used again for the second file; opening it is taken to clear the state that
  the end of the first file has left, as the standard library has done since C++11.
\<close>

definition isspace :: "char \<Rightarrow> bool" where
  "isspace c = ((of_char c :: nat) = 32 \<or> (9 \<le> (of_char c :: nat) \<and> (of_char c :: nat) \<le> 13))"

definition istream_iterator :: "string \<Rightarrow> string" where
  "istream_iterator bytes = filter (\<lambda>c. \<not> isspace c) bytes"

definition l_deflate :: "'t runtime \<Rightarrow> 't ncd \<Rightarrow> string \<Rightarrow> size_t" where
  "l_deflate rt eng bytes =
     (case m_compress eng of
        gzip \<Rightarrow> gzip_compressor rt (m_gzipparam eng) bytes
      | bzip2 \<Rightarrow> bzip2_compressor rt (m_bzip2param eng) bytes)"

definition deflate :: "'t runtime \<Rightarrow> 't ncd \<Rightarrow> string \<Rightarrow> string \<Rightarrow> failure + size_t" where
  "deflate rt eng p_str1 p_str2 =
     (if p_str1 = [] then Inl (parameter ''string size must be greater than zero'')
      else if m_isfile eng then
        (case ifstream rt p_str1 of
           None \<Rightarrow> Inl (parameter ''file can not be opened'')
         | Some bytes1 \<Rightarrow>
             if p_str2 \<noteq> [] then
               (case ifstream rt p_str2 of
                  None \<Rightarrow> Inl (parameter ''file can not be opened'')
                | Some bytes2 \<Rightarrow>
                    Inr (l_deflate rt eng (istream_iterator bytes1 @ istream_iterator bytes2)))
             else Inr (l_deflate rt eng (istream_iterator bytes1)))
      else Inr (l_deflate rt eng (p_str1 @ p_str2)))"

text \<open>The call with one argument: the second parameter has the default value \<open>""\<close>.\<close>

definition deflate1 :: "'t runtime \<Rightarrow> 't ncd \<Rightarrow> string \<Rightarrow> failure + size_t" where
  "deflate1 rt eng p_str1 = deflate rt eng p_str1 []"

text \<open>Sequencing of calls that may throw: the first exception ends the computation.
  The state of an engine that an exception has left is not modelled.\<close>

definition bindE :: "failure + 'a \<Rightarrow> ('a \<Rightarrow> failure + 'b) \<Rightarrow> failure + 'b" where
  "bindE r f = (case r of Inl e \<Rightarrow> Inl e | Inr v \<Rightarrow> f v)"

fun for_each :: "'a list \<Rightarrow> ('a \<Rightarrow> 's \<Rightarrow> failure + 's) \<Rightarrow> 's \<Rightarrow> failure + 's" where
  "for_each [] body s = Inr s"
| "for_each (k # ks) body s = bindE (body k s) (for_each ks body)"

subsection \<open>calculate\<close>

definition calculate ::
  "('t::linordered_field) runtime \<Rightarrow> 't ncd \<Rightarrow> string \<Rightarrow> string \<Rightarrow> bool \<Rightarrow> failure + 't \<times> 't ncd" where
  "calculate rt eng0 p_str1 p_str2 p_isfile =
     (let eng = eng0\<lparr>m_isfile := p_isfile\<rparr> in
       bindE (deflate1 rt eng p_str1) (\<lambda>l_first.
       bindE (deflate1 rt eng p_str2) (\<lambda>l_second.
       bindE (deflate rt eng p_str1 p_str2) (\<lambda>l_both.
         Inr ((of_nat (unat l_both) - of_nat (unat (min l_first l_second)))
                / of_nat (unat (max l_first l_second)), eng)))))"

subsection \<open>getWavefrontIndex\<close>

text \<open>
  The outer loop runs \<open>i\<close> from \<open>p_size - 1\<close> down to 1, the inner loop \<open>j\<close> from 0 while
  \<open>i + j < p_size\<close>; the state is the counter \<open>n\<close> and the multimap. (Both callers pass a
  size of at least 1; with 0 the unsigned \<open>p_size - 1\<close> would wrap.)
\<close>

definition wavefront_insert ::
  "nat \<Rightarrow> nat \<Rightarrow> nat \<Rightarrow> nat \<times> (nat \<times> (nat \<times> nat)) list \<Rightarrow> nat \<times> (nat \<times> (nat \<times> nat)) list" where
  "wavefront_insert p_threads i j st =
     (case st of (n, idx) \<Rightarrow> (Suc n, idx @ [(n mod p_threads, (j, i + j))]))"

definition wavefront_row ::
  "nat \<Rightarrow> nat \<Rightarrow> nat \<Rightarrow> nat \<times> (nat \<times> (nat \<times> nat)) list \<Rightarrow> nat \<times> (nat \<times> (nat \<times> nat)) list" where
  "wavefront_row p_size p_threads i st = fold (wavefront_insert p_threads i) [0..<p_size - i] st"

definition getWavefrontIndex :: "nat \<Rightarrow> nat \<Rightarrow> 't ncd \<Rightarrow> 't ncd" where
  "getWavefrontIndex p_size p_threads eng =
     eng\<lparr>m_wavefront := snd (fold (wavefront_row p_size p_threads) (rev [1..<p_size]) (0, []))\<rparr>"

text \<open>The range of a key: what a thread walks through from \<open>lower_bound\<close> to
  \<open>upper_bound\<close> of its id.\<close>

definition wavefront_range :: "(nat \<times> (nat \<times> nat)) list \<Rightarrow> nat \<Rightarrow> (nat \<times> nat) list" where
  "wavefront_range idx p_id = map snd (filter (\<lambda>e. fst e = p_id) idx)"

subsection \<open>multithread_deflate\<close>

text \<open>
  One iteration of the loop of the symmetric branch, for the pair \<open>(first, second)\<close>.
  (The other branch is never called: \<open>symmetric\<close> passes \<open>true\<close>.) The subtraction is one
  of \<open>std::size_t\<close> and is converted to \<open>T\<close> afterwards.
\<close>

definition cache_fill :: "'t runtime \<Rightarrow> nat \<Rightarrow> 't ncd \<Rightarrow> failure + 't ncd" where
  "cache_fill rt k eng =
     (if m_cache eng ! k = 0 then
        bindE (deflate1 rt eng (m_sources eng ! k)) (\<lambda>c. Inr (eng\<lparr>m_cache := (m_cache eng)[k := c]\<rparr>))
      else Inr eng)"

definition ncd_value :: "size_t \<Rightarrow> size_t \<Rightarrow> size_t \<Rightarrow> ('t::linordered_field)" where
  "ncd_value l_both l_first l_second =
     min 1 (of_nat (unat (l_both - min l_first l_second)) / of_nat (unat (max l_first l_second)))"

definition multithread_deflate_pair ::
  "('t::linordered_field) runtime \<Rightarrow> nat \<times> nat \<Rightarrow> 't ncd \<Rightarrow> failure + 't ncd" where
  "multithread_deflate_pair rt p eng0 =
     (case p of (first, second) \<Rightarrow>
       bindE (cache_fill rt first eng0) (\<lambda>eng1.
       bindE (cache_fill rt second eng1) (\<lambda>eng.
       bindE (deflate rt eng (m_sources eng ! first) (m_sources eng ! second)) (\<lambda>l_both.
         Inr (eng\<lparr>m_symmetric := (m_symmetric eng)((first, second) \<mapsto>
                 ncd_value l_both (m_cache eng ! first) (m_cache eng ! second))\<rparr>)))))"

text \<open>The whole loop of one thread, when nothing else runs in between.\<close>

definition multithread_deflate ::
  "('t::linordered_field) runtime \<Rightarrow> nat \<Rightarrow> 't ncd \<Rightarrow> failure + 't ncd" where
  "multithread_deflate rt p_id eng =
     for_each (wavefront_range (m_wavefront eng) p_id) (multithread_deflate_pair rt) eng"

text \<open>
  The thread group. The threads run their loops at the same time; the model interleaves
  them iteration by iteration. \<open>lanes ! t\<close> is what thread \<open>t\<close> has left to do; each id of
  the schedule lets that thread run its next iteration (nothing happens when it has
  none left), and \<open>join_all\<close> lets every thread finish what remains. An exception in a
  thread ends the process.
\<close>

definition thread_step ::
  "('t::linordered_field) runtime \<Rightarrow> nat \<times> nat \<Rightarrow> 't ncd \<Rightarrow> failure + 't ncd" where
  "thread_step rt p eng =
     (case multithread_deflate_pair rt p eng of Inl e \<Rightarrow> Inl terminate | Inr eng' \<Rightarrow> Inr eng')"

fun thread_group ::
  "('t::linordered_field) runtime \<Rightarrow> nat list \<Rightarrow> (nat \<times> nat) list list \<Rightarrow> 't ncd \<Rightarrow> failure + 't ncd" where
  "thread_group rt [] lanes eng = for_each (concat lanes) (thread_step rt) eng"
| "thread_group rt (t # ts) lanes eng =
     (if t < length lanes \<and> lanes ! t \<noteq> [] then
        bindE (thread_step rt (hd (lanes ! t)) eng)
              (thread_group rt ts (lanes[t := tl (lanes ! t)]))
      else thread_group rt ts lanes eng)"

subsection \<open>unsymmetric\<close>

text \<open>
  The local variables of \<open>unsymmetric\<close>. \<open>l_calls\<close> is not in the source: it records the
  calls of \<open>deflate\<close> that the function has made, by the positions of the items passed.
\<close>

datatype call = deflate_item nat | deflate_items nat nat

record 't unsymmetric_locals =
  l_distances :: "'t matrix"
  l_cache :: "size_t list"
  l_calls :: "call list"

definition unsymmetric_cache ::
  "'t runtime \<Rightarrow> 't ncd \<Rightarrow> string list \<Rightarrow> nat \<Rightarrow> nat \<Rightarrow> 't unsymmetric_locals \<Rightarrow> failure + 't unsymmetric_locals" where
  "unsymmetric_cache rt eng p_strvec i k st =
     (if i = 0 then
        bindE (deflate1 rt eng (p_strvec ! k)) (\<lambda>c.
          Inr (st\<lparr>l_cache := (l_cache st)[k := c], l_calls := l_calls st @ [deflate_item k]\<rparr>))
      else Inr st)"

definition unsymmetric_inner ::
  "('t::linordered_field) runtime \<Rightarrow> 't ncd \<Rightarrow> string list \<Rightarrow> nat \<Rightarrow> nat \<Rightarrow> 't unsymmetric_locals \<Rightarrow> failure + 't unsymmetric_locals" where
  "unsymmetric_inner rt eng p_strvec i j st0 =
     bindE (unsymmetric_cache rt eng p_strvec i j st0) (\<lambda>st.
       let l_min = min (l_cache st ! i) (l_cache st ! j);
           l_max = max (l_cache st ! i) (l_cache st ! j)
       in
       bindE (deflate rt eng (p_strvec ! i) (p_strvec ! j)) (\<lambda>l_ij.
         let st1 = st\<lparr>l_distances := (l_distances st)
                        ((i, j) \<mapsto> min ((of_nat (unat l_ij) - of_nat (unat l_min)) / of_nat (unat l_max)) 1),
                      l_calls := l_calls st @ [deflate_items i j]\<rparr>
         in
       bindE (deflate rt eng (p_strvec ! j) (p_strvec ! i)) (\<lambda>l_ji.
         Inr (st1\<lparr>l_distances := (l_distances st1)
                     ((j, i) \<mapsto> min ((of_nat (unat l_ji) - of_nat (unat l_min)) / of_nat (unat l_max)) 1),
                   l_calls := l_calls st1 @ [deflate_items j i]\<rparr>))))"

definition unsymmetric_outer ::
  "('t::linordered_field) runtime \<Rightarrow> 't ncd \<Rightarrow> string list \<Rightarrow> nat \<Rightarrow> 't unsymmetric_locals \<Rightarrow> failure + 't unsymmetric_locals" where
  "unsymmetric_outer rt eng p_strvec i st0 =
     bindE (unsymmetric_cache rt eng p_strvec i i st0) (\<lambda>st.
       for_each [i + 1..<length p_strvec] (unsymmetric_inner rt eng p_strvec i)
         (st\<lparr>l_distances := (l_distances st)((i, i) \<mapsto> 0)\<rparr>))"

definition unsymmetric_run ::
  "('t::linordered_field) runtime \<Rightarrow> 't ncd \<Rightarrow> string list \<Rightarrow> bool \<Rightarrow> failure + 't unsymmetric_locals \<times> 't ncd" where
  "unsymmetric_run rt eng0 p_strvec p_isfile =
     (if length p_strvec = 0 then Inl (parameter ''vector size must be greater than zero'')
      else
        let eng = eng0\<lparr>m_isfile := p_isfile\<rparr>;
            st = \<lparr> l_distances = ublas_matrix rt (length p_strvec),
                   l_cache = ublas_vector rt (length p_strvec), l_calls = [] \<rparr>
        in bindE (for_each [0..<length p_strvec] (unsymmetric_outer rt eng p_strvec) st)
                 (\<lambda>st'. Inr (st', eng)))"

definition unsymmetric ::
  "('t::linordered_field) runtime \<Rightarrow> 't ncd \<Rightarrow> string list \<Rightarrow> bool \<Rightarrow> failure + 't matrix \<times> 't ncd" where
  "unsymmetric rt eng0 p_strvec p_isfile =
     bindE (unsymmetric_run rt eng0 p_strvec p_isfile) (\<lambda>(st, eng). Inr (l_distances st, eng))"

subsection \<open>symmetric\<close>

definition symmetric_inner ::
  "('t::linordered_field) runtime \<Rightarrow> nat \<Rightarrow> nat \<Rightarrow> 't ncd \<Rightarrow> failure + 't ncd" where
  "symmetric_inner rt i j eng0 =
     bindE (if i = 0 then
              bindE (deflate1 rt eng0 (m_sources eng0 ! j)) (\<lambda>c.
                Inr (eng0\<lparr>m_cache := (m_cache eng0)[j := c]\<rparr>))
            else Inr eng0) (\<lambda>eng.
     bindE (deflate rt eng (m_sources eng ! i) (m_sources eng ! j)) (\<lambda>l_both.
       Inr (eng\<lparr>m_symmetric := (m_symmetric eng)((i, j) \<mapsto>
               ncd_value l_both (m_cache eng ! i) (m_cache eng ! j))\<rparr>)))"

definition symmetric_outer ::
  "('t::linordered_field) runtime \<Rightarrow> nat \<Rightarrow> 't ncd \<Rightarrow> failure + 't ncd" where
  "symmetric_outer rt i eng0 =
     bindE (if i = 0 then
              bindE (deflate1 rt eng0 (m_sources eng0 ! i)) (\<lambda>c.
                Inr (eng0\<lparr>m_cache := (m_cache eng0)[i := c]\<rparr>))
            else Inr eng0) (\<lambda>eng.
       for_each [i + 1..<length (m_sources eng)] (symmetric_inner rt i)
         (eng\<lparr>m_symmetric := (m_symmetric eng)((i, i) \<mapsto> 0)\<rparr>))"

definition symmetric_init :: "'t runtime \<Rightarrow> 't ncd \<Rightarrow> string list \<Rightarrow> bool \<Rightarrow> 't ncd" where
  "symmetric_init rt eng p_strvec p_isfile =
     eng\<lparr> m_sources := p_strvec, m_isfile := p_isfile,
          m_cache := ublas_vector rt (length p_strvec),
          m_symmetric := ublas_symmetric_matrix rt (length p_strvec),
          m_unsymmetric := Map.empty \<rparr>"

definition symmetric_threads ::
  "('t::linordered_field) runtime \<Rightarrow> string list \<Rightarrow> 't ncd \<Rightarrow> failure + 't ncd" where
  "symmetric_threads rt p_strvec eng0 =
     bindE (deflate1 rt eng0 (p_strvec ! 0)) (\<lambda>c0.
       let eng1 = eng0\<lparr>m_cache := (m_cache eng0)[0 := c0]\<rparr> in
     bindE (deflate1 rt eng1 (p_strvec ! (length p_strvec - 1))) (\<lambda>c1.
       let eng2 = eng1\<lparr>m_cache := (m_cache eng1)[length p_strvec - 1 := c1]\<rparr>;
           eng = getWavefrontIndex (length p_strvec) (hardware_concurrency rt) eng2
       in thread_group rt (schedule rt)
            (map (wavefront_range (m_wavefront eng)) [0..<hardware_concurrency rt]) eng))"

definition symmetric_loops ::
  "('t::linordered_field) runtime \<Rightarrow> 't ncd \<Rightarrow> failure + 't ncd" where
  "symmetric_loops rt eng = for_each [0..<length (m_sources eng)] (symmetric_outer rt) eng"

definition symmetric ::
  "('t::linordered_field) runtime \<Rightarrow> 't ncd \<Rightarrow> string list \<Rightarrow> bool \<Rightarrow> failure + 't matrix \<times> 't ncd" where
  "symmetric rt eng0 p_strvec p_isfile =
     (if length p_strvec = 0 then Inl (parameter ''vector size must be greater than zero'')
      else
        let eng = symmetric_init rt eng0 p_strvec p_isfile in
        bindE (if hardware_concurrency rt > 1 then symmetric_threads rt p_strvec eng
               else symmetric_loops rt eng)
              (\<lambda>eng'. Inr (m_symmetric eng', eng')))"

subsection \<open>Vocabulary of the statements\<close>

text \<open>An item that \<open>deflate\<close> accepts: a string that is not empty and, with the file flag,
  names a file that opens.\<close>

definition readable :: "'t runtime \<Rightarrow> bool \<Rightarrow> string \<Rightarrow> bool" where
  "readable rt p_isfile s = (s \<noteq> [] \<and> (p_isfile \<longrightarrow> ifstream rt s \<noteq> None))"

text \<open>The bytes that reach the compressor for an item.\<close>

definition source_bytes :: "'t runtime \<Rightarrow> bool \<Rightarrow> string \<Rightarrow> string" where
  "source_bytes rt p_isfile s =
     (if p_isfile then (case ifstream rt s of None \<Rightarrow> [] | Some bytes \<Rightarrow> istream_iterator bytes)
      else s)"

text \<open>The compressed sizes of an item alone and of one item followed by another.\<close>

definition size_of :: "'t runtime \<Rightarrow> 't ncd \<Rightarrow> bool \<Rightarrow> string \<Rightarrow> size_t" where
  "size_of rt eng p_isfile a = l_deflate rt eng (source_bytes rt p_isfile a)"

definition size_of2 :: "'t runtime \<Rightarrow> 't ncd \<Rightarrow> bool \<Rightarrow> string \<Rightarrow> string \<Rightarrow> size_t" where
  "size_of2 rt eng p_isfile a b =
     l_deflate rt eng (source_bytes rt p_isfile a @ source_bytes rt p_isfile b)"

subsection \<open>The states of the loops\<close>

text \<open>
  The position \<open>(a, b)\<close> has been written when the loops over the rows \<open>i\<close> and the columns
  \<open>j > i\<close> stand at \<open>(i, j)\<close>: its row \<open>min a b\<close> is finished, or is the current row and its
  column \<open>max a b\<close> is passed.
\<close>

definition visited :: "nat \<Rightarrow> nat \<Rightarrow> nat \<Rightarrow> nat \<Rightarrow> bool" where
  "visited i j a b = (min a b < i \<or> (min a b = i \<and> max a b < j))"

text \<open>The distance of \<open>unsymmetric\<close>, from the three sizes as numbers: the formula, then
  the bound 1 from above.\<close>

definition clamped_distance :: "nat \<Rightarrow> nat \<Rightarrow> nat \<Rightarrow> ('t::linordered_field)" where
  "clamped_distance l_both l_first l_second =
     min ((of_nat l_both - of_nat (min l_first l_second)) / of_nat (max l_first l_second)) 1"

definition unsymmetric_entry ::
  "('t::linordered_field) runtime \<Rightarrow> 't ncd \<Rightarrow> bool \<Rightarrow> string list \<Rightarrow> nat \<Rightarrow> nat \<Rightarrow> 't" where
  "unsymmetric_entry rt eng p_isfile p_strvec a b =
     (if a = b then 0
      else clamped_distance (unat (size_of2 rt eng p_isfile (p_strvec ! a) (p_strvec ! b)))
             (unat (size_of rt eng p_isfile (p_strvec ! a)))
             (unat (size_of rt eng p_isfile (p_strvec ! b))))"

text \<open>The state of \<open>unsymmetric\<close> when its loops stand at row \<open>i\<close> and column \<open>j\<close>.\<close>

definition unsymmetric_inv ::
  "('t::linordered_field) runtime \<Rightarrow> 't ncd \<Rightarrow> bool \<Rightarrow> string list \<Rightarrow> nat \<Rightarrow> nat \<Rightarrow> 't unsymmetric_locals \<Rightarrow> bool" where
  "unsymmetric_inv rt eng p_isfile p_strvec i j st =
     (length (l_cache st) = length p_strvec
      \<and> (\<forall>k < length p_strvec. l_cache st ! k =
            (if 0 < i \<or> k < j then size_of rt eng p_isfile (p_strvec ! k) else vector_storage rt k))
      \<and> (\<forall>a b. l_distances st (a, b) =
            (if a < length p_strvec \<and> b < length p_strvec \<and> visited i j a b
             then Some (unsymmetric_entry rt eng p_isfile p_strvec a b)
             else ublas_matrix rt (length p_strvec) (a, b)))
      \<and> distinct (l_calls st)
      \<and> (\<forall>c. c \<in> set (l_calls st) \<longleftrightarrow>
            (case c of
               deflate_item k \<Rightarrow> k < length p_strvec \<and> (0 < i \<or> k < j)
             | deflate_items a b \<Rightarrow>
                 a < length p_strvec \<and> b < length p_strvec \<and> a \<noteq> b \<and> visited i j a b)))"

text \<open>The entry of the sequential loops of \<open>symmetric\<close>, and their state at row \<open>i\<close> and
  column \<open>j\<close>; \<open>E\<close> is the engine the loops start with.\<close>

definition symmetric_entry ::
  "('t::linordered_field) runtime \<Rightarrow> 't ncd \<Rightarrow> bool \<Rightarrow> string list \<Rightarrow> nat \<Rightarrow> nat \<Rightarrow> 't" where
  "symmetric_entry rt eng p_isfile p_strvec a b =
     (if a = b then 0
      else ncd_value (size_of2 rt eng p_isfile (p_strvec ! a) (p_strvec ! b))
             (size_of rt eng p_isfile (p_strvec ! a))
             (size_of rt eng p_isfile (p_strvec ! b)))"

definition symmetric_inv ::
  "('t::linordered_field) runtime \<Rightarrow> 't ncd \<Rightarrow> nat \<Rightarrow> nat \<Rightarrow> 't ncd \<Rightarrow> bool" where
  "symmetric_inv rt E i j eng =
     (eng\<lparr>m_cache := m_cache E, m_symmetric := m_symmetric E\<rparr> = E
      \<and> length (m_cache eng) = length (m_sources E)
      \<and> (\<forall>k < length (m_sources E). m_cache eng ! k =
            (if 0 < i \<or> k < j then size_of rt E (m_isfile E) (m_sources E ! k) else m_cache E ! k))
      \<and> (\<forall>a b. m_symmetric eng (a, b) =
            (if a \<le> b \<and> b < length (m_sources E) \<and> visited i j a b
             then Some (symmetric_entry rt E (m_isfile E) (m_sources E) a b)
             else m_symmetric E (a, b))))"

text \<open>
  The wavefront in the words of the specification: the pairs of a diagonal distance \<open>d\<close>,
  by start position, for \<open>d\<close> from \<open>N - 1\<close> down to 1; and the pairs numbered from \<open>n\<close>
  on, each with the lane \<open>number mod T\<close>.
\<close>

definition antidiagonals :: "nat \<Rightarrow> (nat \<times> nat) list" where
  "antidiagonals N = concat (map (\<lambda>d. map (\<lambda>j. (j, j + d)) [0..<N - d]) (rev [1..<N]))"

definition lanes_of :: "nat \<Rightarrow> nat \<Rightarrow> (nat \<times> nat) list \<Rightarrow> (nat \<times> (nat \<times> nat)) list" where
  "lanes_of T n ps = map (\<lambda>(k, p). (k mod T, p)) (enumerate n ps)"

text \<open>
  The threads of \<open>symmetric\<close>; \<open>E\<close> is the engine the thread group starts with. A thread
  takes a cache entry that is not 0 for the size of the item, so the size it uses is the
  entry \<open>E\<close> has, or the size of the item where that entry is 0. A thread leaves every
  cache entry as it is in \<open>E\<close> or, where that is 0, replaces it by the size of the item.
\<close>

definition cached_size :: "'t runtime \<Rightarrow> 't ncd \<Rightarrow> nat \<Rightarrow> size_t" where
  "cached_size rt E k =
     (if m_cache E ! k = 0 then size_of rt E (m_isfile E) (m_sources E ! k) else m_cache E ! k)"

definition threads_entry :: "('t::linordered_field) runtime \<Rightarrow> 't ncd \<Rightarrow> nat \<times> nat \<Rightarrow> 't" where
  "threads_entry rt E p =
     ncd_value (size_of2 rt E (m_isfile E) (m_sources E ! fst p) (m_sources E ! snd p))
       (cached_size rt E (fst p)) (cached_size rt E (snd p))"

definition threads_inv :: "'t runtime \<Rightarrow> 't ncd \<Rightarrow> 't ncd \<Rightarrow> bool" where
  "threads_inv rt E eng =
     (eng\<lparr>m_cache := m_cache E, m_symmetric := m_symmetric E\<rparr> = E
      \<and> length (m_cache eng) = length (m_sources E)
      \<and> (\<forall>k < length (m_sources E).
            m_cache eng ! k = m_cache E ! k
            \<or> (m_cache E ! k = 0 \<and> m_cache eng ! k = size_of rt E (m_isfile E) (m_sources E ! k))))"

text \<open>The same in terms of the call: the first and the last item are compressed before
  the threads start, the other entries are what the storage of the vector held.\<close>

definition parallel_cache :: "'t runtime \<Rightarrow> 't ncd \<Rightarrow> bool \<Rightarrow> string list \<Rightarrow> nat \<Rightarrow> size_t" where
  "parallel_cache rt eng p_isfile p_strvec k =
     (if k = 0 \<or> k = length p_strvec - 1 \<or> vector_storage rt k = 0
      then size_of rt eng p_isfile (p_strvec ! k) else vector_storage rt k)"

subsection \<open>Sample runtimes\<close>

text \<open>A runtime whose two compressors report \<open>codec bytes\<close> for every parameter set.\<close>

definition sample_runtime ::
  "(string \<Rightarrow> nat) \<Rightarrow> (string \<Rightarrow> string option) \<Rightarrow> nat \<Rightarrow> (nat \<Rightarrow> size_t)
     \<Rightarrow> (nat \<times> nat \<Rightarrow> real) \<Rightarrow> nat list \<Rightarrow> real runtime" where
  "sample_runtime codec files threads vs ms sch =
     \<lparr> gzip_compressor = (\<lambda>_ bytes. of_nat (codec bytes)),
       bzip2_compressor = (\<lambda>_ bytes. of_nat (codec bytes)),
       ifstream = files, hardware_concurrency = threads,
       vector_storage = vs, matrix_storage = ms, schedule = sch \<rparr>"

text \<open>Three size functions: a frame of 20 bytes around the input, the square of the
  length, and one that reports less for two bytes than for one.\<close>

definition framed :: "string \<Rightarrow> nat" where
  "framed bytes = 20 + length bytes"

definition squares :: "string \<Rightarrow> nat" where
  "squares bytes = length bytes * length bytes"

definition shrinking :: "string \<Rightarrow> nat" where
  "shrinking bytes = 30 - 5 * length bytes"

text \<open>A file system with an empty file \<open>e\<close> and a file \<open>f\<close> of three bytes, one of them
  a blank.\<close>

definition sample_files :: "string \<Rightarrow> string option" where
  "sample_files = [''e'' \<mapsto> [], ''f'' \<mapsto> ''x y'']"

text \<open>What a call returns, for statements about one entry, the engine or the local
  variables: \<open>None\<close> when the call throws.\<close>

definition entry :: "failure + 't matrix \<times> 't ncd \<Rightarrow> nat \<Rightarrow> nat \<Rightarrow> 't option" where
  "entry r i j = (case r of Inl _ \<Rightarrow> None | Inr (m, e) \<Rightarrow> m (i, j))"

definition engine_after :: "failure + 'a \<times> 't ncd \<Rightarrow> 't ncd option" where
  "engine_after r = (case r of Inl _ \<Rightarrow> None | Inr (v, e) \<Rightarrow> Some e)"

definition locals_after :: "failure + 't unsymmetric_locals \<times> 't ncd \<Rightarrow> 't unsymmetric_locals option" where
  "locals_after r = (case r of Inl _ \<Rightarrow> None | Inr (st, e) \<Rightarrow> Some st)"

section \<open>Properties\<close>

lemma l_deflate_isfile [simp]: "l_deflate rt (eng\<lparr>m_isfile := f\<rparr>) bytes = l_deflate rt eng bytes"
  by (simp add: l_deflate_def split: compresstype.splits)

subsection \<open>The loops of unsymmetric\<close>

lemma unat_min: "unat (min a b) = min (unat a) (unat b)"
  by (simp add: min_def word_le_nat_alt)

lemma unat_max: "unat (max a b) = max (unat a) (unat b)"
  by (simp add: max_def word_le_nat_alt)

lemma deflate_cases:
  "deflate rt eng a b =
     (if a = [] then Inl (parameter ''string size must be greater than zero'')
      else if m_isfile eng \<and> (ifstream rt a = None \<or> (b \<noteq> [] \<and> ifstream rt b = None))
        then Inl (parameter ''file can not be opened'')
      else Inr (l_deflate rt eng (source_bytes rt (m_isfile eng) a @
                  (if b = [] then [] else source_bytes rt (m_isfile eng) b))))"
  by (auto simp: deflate_def source_bytes_def split: option.splits)

lemma deflate_readable:
  "readable rt (m_isfile eng) a \<Longrightarrow> readable rt (m_isfile eng) b \<Longrightarrow>
   deflate rt eng a b = Inr (size_of2 rt eng (m_isfile eng) a b)"
  by (auto simp: deflate_cases readable_def size_of2_def)

lemma deflate1_readable:
  "readable rt (m_isfile eng) a \<Longrightarrow> deflate1 rt eng a = Inr (size_of rt eng (m_isfile eng) a)"
  by (auto simp: deflate1_def deflate_cases readable_def size_of_def)

lemma for_each_upt_rule:
  assumes "a \<le> b" and "Inv a s"
    and "\<And>k s. a \<le> k \<Longrightarrow> k < b \<Longrightarrow> Inv k s \<Longrightarrow> \<exists>s'. body k s = Inr s' \<and> Inv (Suc k) s'"
  shows "\<exists>s'. for_each [a..<b] body s = Inr s' \<and> Inv b s'"
  using assms
proof (induction "b - a" arbitrary: a s)
  case 0
  then show ?case by simp
next
  case (Suc d)
  then have lt: "a < b" by linarith
  from Suc.prems(3) [OF le_refl lt Suc.prems(2)]
  obtain s1 where s1: "body a s = Inr s1" "Inv (Suc a) s1" by blast
  have "\<exists>s'. for_each [Suc a..<b] body s1 = Inr s' \<and> Inv b s'"
  proof (rule Suc.hyps(1))
    show "d = b - Suc a" using Suc.hyps(2) by linarith
    show "Suc a \<le> b" using lt by simp
    show "Inv (Suc a) s1" by (rule s1)
    show "\<And>k s. Suc a \<le> k \<Longrightarrow> k < b \<Longrightarrow> Inv k s \<Longrightarrow> \<exists>s'. body k s = Inr s' \<and> Inv (Suc k) s'"
      using Suc.prems(3) by simp
  qed
  then show ?case using lt s1 by (simp add: upt_conv_Cons bindE_def)
qed

lemma visited_Suc:
  "i < j \<Longrightarrow> visited i (Suc j) a b \<longleftrightarrow> visited i j a b \<or> (a = i \<and> b = j) \<or> (a = j \<and> b = i)"
  by (auto simp: visited_def min_def max_def)

lemma visited_not_yet: "i < j \<Longrightarrow> \<not> visited i j i j" "i < j \<Longrightarrow> \<not> visited i j j i"
  by (auto simp: visited_def min_def max_def)

lemma unsymmetric_entry_unfold:
  "a \<noteq> b \<Longrightarrow> unsymmetric_entry rt eng f xs a b =
     min ((of_nat (unat (size_of2 rt eng f (xs ! a) (xs ! b)))
           - of_nat (unat (min (size_of rt eng f (xs ! a)) (size_of rt eng f (xs ! b)))))
          / of_nat (unat (max (size_of rt eng f (xs ! a)) (size_of rt eng f (xs ! b))))) 1"
  by (simp add: unsymmetric_entry_def clamped_distance_def unat_min unat_max)

lemma unsymmetric_inner_step:
  assumes inv: "unsymmetric_inv rt eng (m_isfile eng) p_strvec i j st"
    and rd: "\<forall>k < length p_strvec. readable rt (m_isfile eng) (p_strvec ! k)"
    and ij: "i < j" "j < length p_strvec"
  shows "\<exists>st'. unsymmetric_inner rt eng p_strvec i j st = Inr st'
           \<and> unsymmetric_inv rt eng (m_isfile eng) p_strvec i (Suc j) st'"
proof -
  let ?f = "m_isfile eng"
  let ?n = "length p_strvec"
  let ?sz = "\<lambda>k. size_of rt eng ?f (p_strvec ! k)"
  have ri: "readable rt ?f (p_strvec ! i)" and rj: "readable rt ?f (p_strvec ! j)"
    using rd ij by auto
  have len: "length (l_cache st) = ?n"
    and cache: "\<And>k. k < ?n \<Longrightarrow> l_cache st ! k = (if 0 < i \<or> k < j then ?sz k else vector_storage rt k)"
    and dist: "\<And>a b. l_distances st (a, b) =
            (if a < ?n \<and> b < ?n \<and> visited i j a b
             then Some (unsymmetric_entry rt eng ?f p_strvec a b)
             else ublas_matrix rt ?n (a, b))"
    and dc: "distinct (l_calls st)"
    and calls: "\<And>c. c \<in> set (l_calls st) \<longleftrightarrow>
            (case c of deflate_item k \<Rightarrow> k < ?n \<and> (0 < i \<or> k < j)
             | deflate_items a b \<Rightarrow> a < ?n \<and> b < ?n \<and> a \<noteq> b \<and> visited i j a b)"
    using inv unfolding unsymmetric_inv_def by blast+
  define st1 where "st1 = (if i = 0 then st\<lparr>l_cache := (l_cache st)[j := ?sz j],
                                           l_calls := l_calls st @ [deflate_item j]\<rparr> else st)"
  have c1: "unsymmetric_cache rt eng p_strvec i j st = Inr st1"
    by (simp add: unsymmetric_cache_def st1_def bindE_def deflate1_readable [OF rj])
  have len1: "length (l_cache st1) = ?n" by (simp add: st1_def len)
  have cache1: "l_cache st1 ! k = (if 0 < i \<or> k < Suc j then ?sz k else vector_storage rt k)"
    if "k < ?n" for k
    using that ij cache [of k] len by (auto simp: st1_def nth_list_update less_Suc_eq)
  have ci: "l_cache st1 ! i = ?sz i" and cj: "l_cache st1 ! j = ?sz j"
    using cache1 [of i] cache1 [of j] ij by auto
  have dist1: "l_distances st1 = l_distances st" by (simp add: st1_def)
  have dc1: "distinct (l_calls st1)"
    using dc calls [of "deflate_item j"] ij by (auto simp: st1_def)
  have calls1: "c \<in> set (l_calls st1) \<longleftrightarrow>
            (case c of deflate_item k \<Rightarrow> k < ?n \<and> (0 < i \<or> k < Suc j)
             | deflate_items a b \<Rightarrow> a < ?n \<and> b < ?n \<and> a \<noteq> b \<and> visited i j a b)" for c
    using calls [of c] ij by (cases c) (auto simp: st1_def less_Suc_eq)
  define st' where "st' = st1\<lparr>l_distances := (l_distances st1)
                    ((i, j) \<mapsto> unsymmetric_entry rt eng ?f p_strvec i j,
                     (j, i) \<mapsto> unsymmetric_entry rt eng ?f p_strvec j i),
                  l_calls := l_calls st1 @ [deflate_items i j, deflate_items j i]\<rparr>"
  have ne: "i \<noteq> j" "j \<noteq> i" using ij by auto
  have run: "unsymmetric_inner rt eng p_strvec i j st = Inr st'"
    by (simp add: unsymmetric_inner_def c1 bindE_def Let_def ci cj st'_def
        deflate_readable [OF ri rj] deflate_readable [OF rj ri]
        unsymmetric_entry_unfold [OF ne(1)] unsymmetric_entry_unfold [OF ne(2)]
        min.commute [of "?sz j" "?sz i"] max.commute [of "?sz j" "?sz i"])
  have i1: "length (l_cache st') = ?n" by (simp add: st'_def len1)
  have i2: "\<forall>k < ?n. l_cache st' ! k = (if 0 < i \<or> k < Suc j then ?sz k else vector_storage rt k)"
    using cache1 by (simp add: st'_def)
  have i3: "\<forall>a b. l_distances st' (a, b) =
            (if a < ?n \<and> b < ?n \<and> visited i (Suc j) a b
             then Some (unsymmetric_entry rt eng ?f p_strvec a b)
             else ublas_matrix rt ?n (a, b))"
    using ij by (auto simp: st'_def dist1 dist visited_Suc)
  have i4: "distinct (l_calls st')"
    using dc1 calls1 [of "deflate_items i j"] calls1 [of "deflate_items j i"] ij
    by (auto simp: st'_def visited_not_yet)
  have i5: "\<forall>c. c \<in> set (l_calls st') \<longleftrightarrow>
            (case c of deflate_item k \<Rightarrow> k < ?n \<and> (0 < i \<or> k < Suc j)
             | deflate_items a b \<Rightarrow> a < ?n \<and> b < ?n \<and> a \<noteq> b \<and> visited i (Suc j) a b)"
  proof
    fix c show "c \<in> set (l_calls st') \<longleftrightarrow>
            (case c of deflate_item k \<Rightarrow> k < ?n \<and> (0 < i \<or> k < Suc j)
             | deflate_items a b \<Rightarrow> a < ?n \<and> b < ?n \<and> a \<noteq> b \<and> visited i (Suc j) a b)"
      using calls1 [of c] ij by (cases c) (auto simp: st'_def visited_Suc)
  qed
  show ?thesis
    using run i1 i2 i3 i4 i5 unfolding unsymmetric_inv_def by blast
qed

lemma visited_diag: "visited i (Suc i) a b \<longleftrightarrow> visited i i a b \<or> (a = i \<and> b = i)"
  by (auto simp: visited_def min_def max_def)

lemma visited_row_done:
  "a < n \<Longrightarrow> b < n \<Longrightarrow> visited i n a b \<longleftrightarrow> visited (Suc i) (Suc i) a b"
  by (auto simp: visited_def min_def max_def)

lemma unsymmetric_inv_row_done:
  assumes "unsymmetric_inv rt eng f p_strvec i (length p_strvec) st"
  shows "unsymmetric_inv rt eng f p_strvec (Suc i) (Suc i) st"
proof -
  have "(case c of deflate_item k \<Rightarrow> k < length p_strvec \<and> (0 < i \<or> k < length p_strvec)
             | deflate_items a b \<Rightarrow> a < length p_strvec \<and> b < length p_strvec \<and> a \<noteq> b
                 \<and> visited i (length p_strvec) a b)
      = (case c of deflate_item k \<Rightarrow> k < length p_strvec \<and> (0 < Suc i \<or> k < Suc i)
             | deflate_items a b \<Rightarrow> a < length p_strvec \<and> b < length p_strvec \<and> a \<noteq> b
                 \<and> visited (Suc i) (Suc i) a b)" for c
    by (cases c) (auto simp: visited_row_done)
  moreover have "(if a < length p_strvec \<and> b < length p_strvec \<and> visited i (length p_strvec) a b
             then Some (unsymmetric_entry rt eng f p_strvec a b)
             else ublas_matrix rt (length p_strvec) (a, b))
     = (if a < length p_strvec \<and> b < length p_strvec \<and> visited (Suc i) (Suc i) a b
             then Some (unsymmetric_entry rt eng f p_strvec a b)
             else ublas_matrix rt (length p_strvec) (a, b))" for a b
    by (auto simp: visited_row_done)
  ultimately show ?thesis
    using assms unfolding unsymmetric_inv_def by simp
qed

lemma unsymmetric_outer_step:
  assumes inv: "unsymmetric_inv rt eng (m_isfile eng) p_strvec i i st"
    and rd: "\<forall>k < length p_strvec. readable rt (m_isfile eng) (p_strvec ! k)"
    and i: "i < length p_strvec"
  shows "\<exists>st'. unsymmetric_outer rt eng p_strvec i st = Inr st'
           \<and> unsymmetric_inv rt eng (m_isfile eng) p_strvec (Suc i) (Suc i) st'"
proof -
  let ?f = "m_isfile eng"
  let ?n = "length p_strvec"
  let ?sz = "\<lambda>k. size_of rt eng ?f (p_strvec ! k)"
  have ri: "readable rt ?f (p_strvec ! i)" using rd i by auto
  have len: "length (l_cache st) = ?n"
    and cache: "\<And>k. k < ?n \<Longrightarrow> l_cache st ! k = (if 0 < i \<or> k < i then ?sz k else vector_storage rt k)"
    and dist: "\<And>a b. l_distances st (a, b) =
            (if a < ?n \<and> b < ?n \<and> visited i i a b
             then Some (unsymmetric_entry rt eng ?f p_strvec a b)
             else ublas_matrix rt ?n (a, b))"
    and dc: "distinct (l_calls st)"
    and calls: "\<And>c. c \<in> set (l_calls st) \<longleftrightarrow>
            (case c of deflate_item k \<Rightarrow> k < ?n \<and> (0 < i \<or> k < i)
             | deflate_items a b \<Rightarrow> a < ?n \<and> b < ?n \<and> a \<noteq> b \<and> visited i i a b)"
    using inv unfolding unsymmetric_inv_def by blast+
  define st1 where "st1 = (if i = 0 then st\<lparr>l_cache := (l_cache st)[i := ?sz i],
                                           l_calls := l_calls st @ [deflate_item i]\<rparr> else st)"
  define st2 where "st2 = st1\<lparr>l_distances := (l_distances st1)((i, i) \<mapsto> 0)\<rparr>"
  have c1: "unsymmetric_cache rt eng p_strvec i i st = Inr st1"
    using ri by (auto simp: unsymmetric_cache_def st1_def bindE_def deflate1_readable)
  have i1: "length (l_cache st2) = ?n" by (simp add: st2_def st1_def len)
  have i2: "\<forall>k < ?n. l_cache st2 ! k = (if 0 < i \<or> k < Suc i then ?sz k else vector_storage rt k)"
    using i cache len by (auto simp: st2_def st1_def nth_list_update)
  have i3: "\<forall>a b. l_distances st2 (a, b) =
            (if a < ?n \<and> b < ?n \<and> visited i (Suc i) a b
             then Some (unsymmetric_entry rt eng ?f p_strvec a b)
             else ublas_matrix rt ?n (a, b))"
    using i by (auto simp: st2_def st1_def dist visited_diag unsymmetric_entry_def)
  have i4: "distinct (l_calls st2)"
    using dc calls [of "deflate_item i"] by (auto simp: st2_def st1_def)
  have i5: "\<forall>c. c \<in> set (l_calls st2) \<longleftrightarrow>
            (case c of deflate_item k \<Rightarrow> k < ?n \<and> (0 < i \<or> k < Suc i)
             | deflate_items a b \<Rightarrow> a < ?n \<and> b < ?n \<and> a \<noteq> b \<and> visited i (Suc i) a b)"
  proof
    fix c show "c \<in> set (l_calls st2) \<longleftrightarrow>
            (case c of deflate_item k \<Rightarrow> k < ?n \<and> (0 < i \<or> k < Suc i)
             | deflate_items a b \<Rightarrow> a < ?n \<and> b < ?n \<and> a \<noteq> b \<and> visited i (Suc i) a b)"
      using calls [of c] i by (cases c) (auto simp: st2_def st1_def visited_diag)
  qed
  have inv2: "unsymmetric_inv rt eng ?f p_strvec i (Suc i) st2"
    using i1 i2 i3 i4 i5 unfolding unsymmetric_inv_def by blast
  have "\<exists>st'. for_each [Suc i..<?n] (unsymmetric_inner rt eng p_strvec i) st2 = Inr st'
          \<and> unsymmetric_inv rt eng ?f p_strvec i ?n st'"
  proof (rule for_each_upt_rule [where Inv = "unsymmetric_inv rt eng ?f p_strvec i"])
    show "Suc i \<le> ?n" using i by simp
    show "unsymmetric_inv rt eng ?f p_strvec i (Suc i) st2" by (rule inv2)
    show "\<exists>s'. unsymmetric_inner rt eng p_strvec i k s = Inr s'
            \<and> unsymmetric_inv rt eng ?f p_strvec i (Suc k) s'"
      if "Suc i \<le> k" "k < ?n" "unsymmetric_inv rt eng ?f p_strvec i k s" for k s
      using unsymmetric_inner_step [OF that(3) rd _ that(2)] that(1) by simp
  qed
  then obtain st' where
    "for_each [Suc i..<?n] (unsymmetric_inner rt eng p_strvec i) st2 = Inr st'"
    "unsymmetric_inv rt eng ?f p_strvec i ?n st'" by blast
  then show ?thesis
    using c1 unsymmetric_inv_row_done [of rt eng ?f p_strvec i st']
    by (simp add: unsymmetric_outer_def bindE_def st2_def)
qed

lemma size_of_isfile [simp]: "size_of rt (eng\<lparr>m_isfile := f\<rparr>) = size_of rt eng"
  by (simp add: size_of_def fun_eq_iff l_deflate_def split: compresstype.splits)

lemma size_of2_isfile [simp]: "size_of2 rt (eng\<lparr>m_isfile := f\<rparr>) = size_of2 rt eng"
  by (simp add: size_of2_def fun_eq_iff l_deflate_def split: compresstype.splits)

lemma unsymmetric_entry_isfile [simp]:
  "unsymmetric_entry rt (eng\<lparr>m_isfile := f\<rparr>) = unsymmetric_entry rt eng"
  by (simp add: unsymmetric_entry_def fun_eq_iff)

lemma unsymmetric_inv_isfile [simp]:
  "unsymmetric_inv rt (eng\<lparr>m_isfile := f\<rparr>) = unsymmetric_inv rt eng"
  by (simp add: unsymmetric_inv_def fun_eq_iff)

lemma unsymmetric_run_inv:
  assumes ne: "p_strvec \<noteq> []"
    and rd: "\<forall>k < length p_strvec. readable rt p_isfile (p_strvec ! k)"
  shows "\<exists>st. unsymmetric_run rt eng p_strvec p_isfile = Inr (st, eng\<lparr>m_isfile := p_isfile\<rparr>)
           \<and> unsymmetric_inv rt eng p_isfile p_strvec (length p_strvec) (length p_strvec) st"
proof -
  let ?n = "length p_strvec"
  let ?eng = "eng\<lparr>m_isfile := p_isfile\<rparr>"
  let ?st = "\<lparr> l_distances = ublas_matrix rt ?n, l_cache = ublas_vector rt ?n, l_calls = [] \<rparr>"
  have init: "unsymmetric_inv rt ?eng (m_isfile ?eng) p_strvec 0 0 ?st"
    by (auto simp: unsymmetric_inv_def ublas_vector_def visited_def split: call.splits)
  have rd': "\<forall>k < ?n. readable rt (m_isfile ?eng) (p_strvec ! k)" using rd by simp
  have "\<exists>st'. for_each [0..<?n] (unsymmetric_outer rt ?eng p_strvec) ?st = Inr st'
          \<and> unsymmetric_inv rt ?eng (m_isfile ?eng) p_strvec ?n ?n st'"
  proof (rule for_each_upt_rule [where Inv = "\<lambda>i. unsymmetric_inv rt ?eng (m_isfile ?eng) p_strvec i i"])
    show "0 \<le> ?n" by simp
    show "unsymmetric_inv rt ?eng (m_isfile ?eng) p_strvec 0 0 ?st" by (rule init)
    show "\<exists>s'. unsymmetric_outer rt ?eng p_strvec k s = Inr s'
            \<and> unsymmetric_inv rt ?eng (m_isfile ?eng) p_strvec (Suc k) (Suc k) s'"
      if "k < ?n" "unsymmetric_inv rt ?eng (m_isfile ?eng) p_strvec k k s" for k s
      by (rule unsymmetric_outer_step [OF that(2) rd' that(1)])
  qed
  then show ?thesis
    using ne by (auto simp: unsymmetric_run_def Let_def bindE_def)
qed

subsection \<open>The sequential loops of symmetric\<close>

lemma frame_fields:
  assumes "eng\<lparr>m_cache := c, m_symmetric := m\<rparr> = E"
  shows "m_sources eng = m_sources E" "m_isfile eng = m_isfile E" "m_compress eng = m_compress E"
    "m_gzipparam eng = m_gzipparam E" "m_bzip2param eng = m_bzip2param E"
    "m_wavefront eng = m_wavefront E" "m_unsymmetric eng = m_unsymmetric E"
  using assms by (cases eng; cases E; simp)+

lemma frame_update:
  assumes "eng\<lparr>m_cache := c, m_symmetric := m\<rparr> = E"
  shows "eng\<lparr>m_cache := c'\<rparr>\<lparr>m_cache := c, m_symmetric := m\<rparr> = E"
    "eng\<lparr>m_symmetric := m'\<rparr>\<lparr>m_cache := c, m_symmetric := m\<rparr> = E"
  using assms by (cases eng; cases E; simp)+

lemma frame_deflate:
  assumes "eng\<lparr>m_cache := c, m_symmetric := m\<rparr> = E"
  shows "deflate rt eng = deflate rt E"
proof -
  have "l_deflate rt eng = l_deflate rt E"
    using frame_fields [OF assms] by (simp add: l_deflate_def fun_eq_iff split: compresstype.splits)
  then show ?thesis
    using frame_fields(2) [OF assms] by (simp add: deflate_def fun_eq_iff split: option.splits)
qed

lemma frame_deflate1:
  assumes "eng\<lparr>m_cache := c, m_symmetric := m\<rparr> = E"
  shows "deflate1 rt eng = deflate1 rt E"
  using frame_deflate [OF assms] by (simp add: deflate1_def fun_eq_iff)

lemma symmetric_inner_step:
  assumes inv: "symmetric_inv rt E i j eng"
    and rd: "\<forall>k < length (m_sources E). readable rt (m_isfile E) (m_sources E ! k)"
    and ij: "i < j" "j < length (m_sources E)"
  shows "\<exists>eng'. symmetric_inner rt i j eng = Inr eng' \<and> symmetric_inv rt E i (Suc j) eng'"
proof -
  let ?f = "m_isfile E"
  let ?n = "length (m_sources E)"
  let ?sz = "\<lambda>k. size_of rt E ?f (m_sources E ! k)"
  have ri: "readable rt ?f (m_sources E ! i)" and rj: "readable rt ?f (m_sources E ! j)"
    using rd ij by auto
  have fr: "eng\<lparr>m_cache := m_cache E, m_symmetric := m_symmetric E\<rparr> = E"
    and len: "length (m_cache eng) = ?n"
    and cache: "\<And>k. k < ?n \<Longrightarrow> m_cache eng ! k = (if 0 < i \<or> k < j then ?sz k else m_cache E ! k)"
    and dist: "\<And>a b. m_symmetric eng (a, b) =
            (if a \<le> b \<and> b < ?n \<and> visited i j a b
             then Some (symmetric_entry rt E ?f (m_sources E) a b)
             else m_symmetric E (a, b))"
    using inv unfolding symmetric_inv_def by blast+
  note ff = frame_fields [OF fr]
  define eng1 where "eng1 = (if i = 0 then eng\<lparr>m_cache := (m_cache eng)[j := ?sz j]\<rparr> else eng)"
  have fr1: "eng1\<lparr>m_cache := m_cache E, m_symmetric := m_symmetric E\<rparr> = E"
    using fr frame_update(1) [OF fr] by (simp add: eng1_def)
  note ff1 = frame_fields [OF fr1]
  have len1: "length (m_cache eng1) = ?n" by (simp add: eng1_def len)
  have cache1: "m_cache eng1 ! k = (if 0 < i \<or> k < Suc j then ?sz k else m_cache E ! k)"
    if "k < ?n" for k
    using that ij cache [of k] len by (auto simp: eng1_def nth_list_update less_Suc_eq)
  have ci: "m_cache eng1 ! i = ?sz i" and cj: "m_cache eng1 ! j = ?sz j"
    using cache1 [of i] cache1 [of j] ij by auto
  have dist1: "m_symmetric eng1 = m_symmetric eng" by (simp add: eng1_def)
  define eng' where "eng' = eng1\<lparr>m_symmetric := (m_symmetric eng1)
                    ((i, j) \<mapsto> symmetric_entry rt E ?f (m_sources E) i j)\<rparr>"
  have ne: "i \<noteq> j" using ij by auto
  have pre: "(if i = 0 then
              bindE (deflate1 rt eng (m_sources eng ! j)) (\<lambda>c.
                Inr (eng\<lparr>m_cache := (m_cache eng)[j := c]\<rparr>))
            else Inr eng) = Inr eng1"
    using rj by (simp add: eng1_def bindE_def frame_deflate1 [OF fr] ff deflate1_readable)
  have run: "symmetric_inner rt i j eng = Inr eng'"
    unfolding symmetric_inner_def pre
    using ri rj ne
    by (simp add: bindE_def frame_deflate [OF fr1] ff1 deflate_readable ci cj eng'_def
        symmetric_entry_def)
  have i0: "eng'\<lparr>m_cache := m_cache E, m_symmetric := m_symmetric E\<rparr> = E"
    using frame_update(2) [OF fr1] by (simp add: eng'_def)
  have i1: "length (m_cache eng') = ?n" by (simp add: eng'_def len1)
  have i2: "\<forall>k < ?n. m_cache eng' ! k = (if 0 < i \<or> k < Suc j then ?sz k else m_cache E ! k)"
    using cache1 by (simp add: eng'_def)
  have i3: "\<forall>a b. m_symmetric eng' (a, b) =
            (if a \<le> b \<and> b < ?n \<and> visited i (Suc j) a b
             then Some (symmetric_entry rt E ?f (m_sources E) a b)
             else m_symmetric E (a, b))"
    using ij by (auto simp: eng'_def dist1 dist visited_Suc)
  show ?thesis
    using run i0 i1 i2 i3 unfolding symmetric_inv_def by blast
qed

lemma symmetric_inv_row_done:
  assumes "symmetric_inv rt E i (length (m_sources E)) eng"
  shows "symmetric_inv rt E (Suc i) (Suc i) eng"
proof -
  have "(if a \<le> b \<and> b < length (m_sources E) \<and> visited i (length (m_sources E)) a b
             then Some (symmetric_entry rt E (m_isfile E) (m_sources E) a b)
             else m_symmetric E (a, b))
     = (if a \<le> b \<and> b < length (m_sources E) \<and> visited (Suc i) (Suc i) a b
             then Some (symmetric_entry rt E (m_isfile E) (m_sources E) a b)
             else m_symmetric E (a, b))" for a b
    by (auto simp: visited_row_done)
  then show ?thesis
    using assms unfolding symmetric_inv_def by simp
qed

lemma symmetric_outer_step:
  assumes inv: "symmetric_inv rt E i i eng"
    and rd: "\<forall>k < length (m_sources E). readable rt (m_isfile E) (m_sources E ! k)"
    and i: "i < length (m_sources E)"
  shows "\<exists>eng'. symmetric_outer rt i eng = Inr eng' \<and> symmetric_inv rt E (Suc i) (Suc i) eng'"
proof -
  let ?f = "m_isfile E"
  let ?n = "length (m_sources E)"
  let ?sz = "\<lambda>k. size_of rt E ?f (m_sources E ! k)"
  have ri: "readable rt ?f (m_sources E ! i)" using rd i by auto
  have fr: "eng\<lparr>m_cache := m_cache E, m_symmetric := m_symmetric E\<rparr> = E"
    and len: "length (m_cache eng) = ?n"
    and cache: "\<And>k. k < ?n \<Longrightarrow> m_cache eng ! k = (if 0 < i \<or> k < i then ?sz k else m_cache E ! k)"
    and dist: "\<And>a b. m_symmetric eng (a, b) =
            (if a \<le> b \<and> b < ?n \<and> visited i i a b
             then Some (symmetric_entry rt E ?f (m_sources E) a b)
             else m_symmetric E (a, b))"
    using inv unfolding symmetric_inv_def by blast+
  note ff = frame_fields [OF fr]
  define eng1 where "eng1 = (if i = 0 then eng\<lparr>m_cache := (m_cache eng)[i := ?sz i]\<rparr> else eng)"
  define eng2 where "eng2 = eng1\<lparr>m_symmetric := (m_symmetric eng1)((i, i) \<mapsto> 0)\<rparr>"
  have fr1: "eng1\<lparr>m_cache := m_cache E, m_symmetric := m_symmetric E\<rparr> = E"
    using fr frame_update(1) [OF fr] by (simp add: eng1_def)
  have fr2: "eng2\<lparr>m_cache := m_cache E, m_symmetric := m_symmetric E\<rparr> = E"
    using frame_update(2) [OF fr1] by (simp add: eng2_def)
  have pre: "(if i = 0 then
              bindE (deflate1 rt eng (m_sources eng ! i)) (\<lambda>c.
                Inr (eng\<lparr>m_cache := (m_cache eng)[i := c]\<rparr>))
            else Inr eng) = Inr eng1"
    using ri by (auto simp: eng1_def bindE_def frame_deflate1 [OF fr] ff deflate1_readable)
  have i1: "length (m_cache eng2) = ?n" by (simp add: eng2_def eng1_def len)
  have i2: "\<forall>k < ?n. m_cache eng2 ! k = (if 0 < i \<or> k < Suc i then ?sz k else m_cache E ! k)"
    using i cache len by (auto simp: eng2_def eng1_def nth_list_update)
  have i3: "\<forall>a b. m_symmetric eng2 (a, b) =
            (if a \<le> b \<and> b < ?n \<and> visited i (Suc i) a b
             then Some (symmetric_entry rt E ?f (m_sources E) a b)
             else m_symmetric E (a, b))"
    using i by (auto simp: eng2_def eng1_def dist visited_diag symmetric_entry_def)
  have inv2: "symmetric_inv rt E i (Suc i) eng2"
    using fr2 i1 i2 i3 unfolding symmetric_inv_def by blast
  have "\<exists>eng'. for_each [Suc i..<?n] (symmetric_inner rt i) eng2 = Inr eng'
          \<and> symmetric_inv rt E i ?n eng'"
  proof (rule for_each_upt_rule [where Inv = "symmetric_inv rt E i"])
    show "Suc i \<le> ?n" using i by simp
    show "symmetric_inv rt E i (Suc i) eng2" by (rule inv2)
    show "\<exists>s'. symmetric_inner rt i k s = Inr s' \<and> symmetric_inv rt E i (Suc k) s'"
      if "Suc i \<le> k" "k < ?n" "symmetric_inv rt E i k s" for k s
      using symmetric_inner_step [OF that(3) rd _ that(2)] that(1) by simp
  qed
  then obtain eng' where
    "for_each [Suc i..<?n] (symmetric_inner rt i) eng2 = Inr eng'"
    "symmetric_inv rt E i ?n eng'" by blast
  moreover have "m_sources eng1 = m_sources E" by (rule frame_fields [OF fr1])
  ultimately show ?thesis
    using symmetric_inv_row_done [of rt E i eng']
    unfolding symmetric_outer_def pre by (simp add: bindE_def eng2_def)
qed

lemma symmetric_loops_inv:
  assumes rd: "\<forall>k < length (m_sources E). readable rt (m_isfile E) (m_sources E ! k)"
    and len: "length (m_cache E) = length (m_sources E)"
  shows "\<exists>eng'. symmetric_loops rt E = Inr eng'
           \<and> symmetric_inv rt E (length (m_sources E)) (length (m_sources E)) eng'"
proof -
  have init: "symmetric_inv rt E 0 0 E"
    using len by (auto simp: symmetric_inv_def visited_def)
  show ?thesis
    unfolding symmetric_loops_def
  proof (rule for_each_upt_rule [where Inv = "\<lambda>i. symmetric_inv rt E i i"])
    show "0 \<le> length (m_sources E)" by simp
    show "symmetric_inv rt E 0 0 E" by (rule init)
    show "\<exists>s'. symmetric_outer rt k s = Inr s' \<and> symmetric_inv rt E (Suc k) (Suc k) s'"
      if "k < length (m_sources E)" "symmetric_inv rt E k k s" for k s
      by (rule symmetric_outer_step [OF that(2) rd that(1)])
  qed
qed

subsection \<open>The wavefront index\<close>

lemma lanes_of_append:
  "lanes_of T n (ps @ qs) = lanes_of T n ps @ lanes_of T (n + length ps) qs"
  by (simp add: lanes_of_def enumerate_append_eq)

lemma wavefront_insert_step:
  "wavefront_insert T d j (n, acc) = (Suc n, acc @ [(n mod T, (j, j + d))])"
  by (simp add: wavefront_insert_def add.commute)

lemma lanes_of_Cons: "lanes_of T n (p # ps) = (n mod T, p) # lanes_of T (Suc n) ps"
  by (simp add: lanes_of_def)

lemma wavefront_insert_fold:
  "fold (wavefront_insert T d) js (n, acc) =
     (n + length js, acc @ lanes_of T n (map (\<lambda>j. (j, j + d)) js))"
proof (induction js arbitrary: n acc)
  case Nil
  then show ?case by (simp add: lanes_of_def)
next
  case (Cons j js)
  show ?case
    by (simp add: wavefront_insert_step Cons.IH lanes_of_Cons)
qed

lemma wavefront_row_step:
  "wavefront_row N T d (n, acc) =
     (n + (N - d), acc @ lanes_of T n (map (\<lambda>j. (j, j + d)) [0..<N - d]))"
  by (simp add: wavefront_row_def wavefront_insert_fold)

lemma wavefront_row_fold:
  "fold (wavefront_row N T) ds (n, acc) =
     (n + length (concat (map (\<lambda>d. map (\<lambda>j. (j, j + d)) [0..<N - d]) ds)),
      acc @ lanes_of T n (concat (map (\<lambda>d. map (\<lambda>j. (j, j + d)) [0..<N - d]) ds)))"
proof (induction ds arbitrary: n acc)
  case Nil
  then show ?case by (simp add: lanes_of_def)
next
  case (Cons d ds)
  show ?case
    by (simp add: wavefront_row_step Cons.IH lanes_of_append add.assoc)
qed

lemma getWavefrontIndex_lanes:
  "m_wavefront (getWavefrontIndex N T eng) = lanes_of T 0 (antidiagonals N)"
  by (simp add: getWavefrontIndex_def wavefront_row_fold antidiagonals_def)

lemma lanes_of_snd: "map snd (lanes_of T n ps) = ps"
  by (induction ps arbitrary: n) (simp_all add: lanes_of_def)

lemma lanes_of_length: "length (lanes_of T n ps) = length ps"
  by (simp add: lanes_of_def)

lemma lanes_of_nth: "k < length ps \<Longrightarrow> lanes_of T n ps ! k = ((n + k) mod T, ps ! k)"
  by (simp add: lanes_of_def nth_enumerate_eq)

lemma lanes_of_key: "0 < T \<Longrightarrow> e \<in> set (lanes_of T n ps) \<Longrightarrow> fst e < T"
  by (auto simp: lanes_of_def)

lemma antidiagonal_row_mem:
  "(i, j) \<in> set (map (\<lambda>k. (k, k + d)) [0..<N - d]) \<longleftrightarrow> i < N - d \<and> j = i + d"
  by (simp add: image_iff)

lemma concat_map_mem: "x \<in> set (concat (map f ds)) \<longleftrightarrow> (\<exists>d \<in> set ds. x \<in> set (f d))"
  by simp

lemma antidiagonals_mem_diagonal:
  "(i, j) \<in> set (antidiagonals N) \<longleftrightarrow> (\<exists>d \<in> set (rev [1..<N]). i < N - d \<and> j = i + d)"
  unfolding antidiagonals_def concat_map_mem antidiagonal_row_mem ..

lemma antidiagonals_mem: "(i, j) \<in> set (antidiagonals N) \<longleftrightarrow> i < j \<and> j < N"
  unfolding antidiagonals_mem_diagonal
proof
  assume "\<exists>d \<in> set (rev [1..<N]). i < N - d \<and> j = i + d"
  then obtain d where "1 \<le> d" "d < N" "i < N - d" "j = i + d" by auto
  then show "i < j \<and> j < N" by linarith
next
  assume a: "i < j \<and> j < N"
  then have "j - i \<in> set (rev [1..<N])" by auto
  moreover have "i < N - (j - i) \<and> j = i + (j - i)" using a by linarith
  ultimately show "\<exists>d \<in> set (rev [1..<N]). i < N - d \<and> j = i + d" by (rule bexI [rotated])
qed

lemma antidiagonals_set: "set (antidiagonals N) = {(i, j). i < j \<and> j < N}"
proof (rule set_eqI)
  fix p :: "nat \<times> nat"
  show "p \<in> set (antidiagonals N) \<longleftrightarrow> p \<in> {(i, j). i < j \<and> j < N}"
    by (cases p) (simp only: antidiagonals_mem mem_Collect_eq prod.case)
qed

lemma antidiagonal_rows_distinct:
  "distinct ds \<Longrightarrow> distinct (concat (map (\<lambda>d. map (\<lambda>j. (j, j + d)) [0..<N - d]) ds))"
proof (induction ds)
  case Nil
  then show ?case by simp
next
  case (Cons d ds)
  have row: "distinct (map (\<lambda>j. (j, j + d)) [0..<N - d])"
    by (simp add: distinct_map inj_on_def)
  have disj: "set (map (\<lambda>j. (j, j + d)) [0..<N - d])
      \<inter> set (concat (map (\<lambda>d. map (\<lambda>j. (j, j + d)) [0..<N - d]) ds)) = {}"
    using Cons.prems by auto
  show ?case
    using Cons row disj by simp
qed

lemma antidiagonals_distinct: "distinct (antidiagonals N)"
  unfolding antidiagonals_def by (rule antidiagonal_rows_distinct) simp

lemma wavefront_range_mem: "p \<in> set (wavefront_range idx l) \<longleftrightarrow> (l, p) \<in> set idx"
  by (force simp: wavefront_range_def)

lemma wavefront_range_distinct: "distinct (map snd idx) \<Longrightarrow> distinct (wavefront_range idx l)"
  by (simp add: wavefront_range_def distinct_map_filter)

lemma distinct_snd_key:
  "distinct (map snd idx) \<Longrightarrow> (k, p) \<in> set idx \<Longrightarrow> (l, p) \<in> set idx \<Longrightarrow> k = l"
  by (induction idx) (auto simp: image_iff)

subsection \<open>The threads of symmetric\<close>

lemma threads_inv_update:
  assumes inv: "threads_inv rt E eng" and k: "k < length (m_sources E)"
  shows "threads_inv rt E (eng\<lparr>m_cache := (m_cache eng)[k := cached_size rt E k]\<rparr>)"
proof -
  have fr: "eng\<lparr>m_cache := m_cache E, m_symmetric := m_symmetric E\<rparr> = E"
    using inv by (simp add: threads_inv_def)
  have "eng\<lparr>m_cache := (m_cache eng)[k := cached_size rt E k]\<rparr>
          \<lparr>m_cache := m_cache E, m_symmetric := m_symmetric E\<rparr> = E"
    by (rule frame_update(1) [OF fr])
  then show ?thesis
    using inv k by (auto simp: threads_inv_def nth_list_update cached_size_def)
qed

lemma cache_fill_step:
  assumes inv: "threads_inv rt E eng"
    and rd: "\<forall>k < length (m_sources E). readable rt (m_isfile E) (m_sources E ! k)"
    and k: "k < length (m_sources E)"
  shows "cache_fill rt k eng = Inr (eng\<lparr>m_cache := (m_cache eng)[k := cached_size rt E k]\<rparr>)"
proof -
  have fr: "eng\<lparr>m_cache := m_cache E, m_symmetric := m_symmetric E\<rparr> = E"
    and c: "m_cache eng ! k = m_cache E ! k
            \<or> (m_cache E ! k = 0 \<and> m_cache eng ! k = size_of rt E (m_isfile E) (m_sources E ! k))"
    using inv k by (auto simp: threads_inv_def)
  have rk: "readable rt (m_isfile E) (m_sources E ! k)" using rd k by simp
  show ?thesis
  proof (cases "m_cache eng ! k = 0")
    case True
    then have "cached_size rt E k = size_of rt E (m_isfile E) (m_sources E ! k)"
      using c by (auto simp: cached_size_def)
    then show ?thesis
      using True rk
      by (simp add: cache_fill_def bindE_def frame_deflate1 [OF fr] frame_fields [OF fr]
          deflate1_readable)
  next
    case False
    then have "cached_size rt E k = m_cache eng ! k"
      using c by (auto simp: cached_size_def)
    then show ?thesis
      using False by (simp add: cache_fill_def)
  qed
qed

lemma multithread_deflate_pair_step:
  assumes inv: "threads_inv rt E eng"
    and rd: "\<forall>k < length (m_sources E). readable rt (m_isfile E) (m_sources E ! k)"
    and p: "fst p < length (m_sources E)" "snd p < length (m_sources E)"
  shows "\<exists>eng'. multithread_deflate_pair rt p eng = Inr eng' \<and> threads_inv rt E eng'
           \<and> m_symmetric eng' = (m_symmetric eng)(p \<mapsto> threads_entry rt E p)"
proof -
  obtain a b where ab: "p = (a, b)" by (cases p)
  have a: "a < length (m_sources E)" and b: "b < length (m_sources E)" using p ab by simp_all
  define eng1 where "eng1 = eng\<lparr>m_cache := (m_cache eng)[a := cached_size rt E a]\<rparr>"
  define eng2 where "eng2 = eng1\<lparr>m_cache := (m_cache eng1)[b := cached_size rt E b]\<rparr>"
  have inv1: "threads_inv rt E eng1" unfolding eng1_def by (rule threads_inv_update [OF inv a])
  have inv2: "threads_inv rt E eng2" unfolding eng2_def by (rule threads_inv_update [OF inv1 b])
  have f1: "cache_fill rt a eng = Inr eng1" unfolding eng1_def by (rule cache_fill_step [OF inv rd a])
  have f2: "cache_fill rt b eng1 = Inr eng2" unfolding eng2_def by (rule cache_fill_step [OF inv1 rd b])
  have fr2: "eng2\<lparr>m_cache := m_cache E, m_symmetric := m_symmetric E\<rparr> = E"
    and len2: "length (m_cache eng2) = length (m_sources E)"
    using inv2 by (simp_all add: threads_inv_def)
  have len: "length (m_cache eng) = length (m_sources E)" using inv by (simp add: threads_inv_def)
  have ca: "m_cache eng2 ! a = cached_size rt E a" and cb: "m_cache eng2 ! b = cached_size rt E b"
    using a b len by (auto simp: eng2_def eng1_def nth_list_update)
  have ra: "readable rt (m_isfile E) (m_sources E ! a)" and rb: "readable rt (m_isfile E) (m_sources E ! b)"
    using rd a b by simp_all
  define eng' where "eng' = eng2\<lparr>m_symmetric := (m_symmetric eng2)((a, b) \<mapsto> threads_entry rt E (a, b))\<rparr>"
  have run: "multithread_deflate_pair rt p eng = Inr eng'"
    using ra rb
    by (simp add: multithread_deflate_pair_def ab f1 f2 bindE_def frame_deflate [OF fr2]
        frame_fields [OF fr2] deflate_readable ca cb eng'_def threads_entry_def)
  have "eng'\<lparr>m_cache := m_cache E, m_symmetric := m_symmetric E\<rparr> = E"
    unfolding eng'_def by (rule frame_update(2) [OF fr2])
  then have inv': "threads_inv rt E eng'"
    using inv2 by (simp add: threads_inv_def eng'_def)
  have "m_symmetric eng' = (m_symmetric eng)(p \<mapsto> threads_entry rt E p)"
    by (simp add: eng'_def eng2_def eng1_def ab)
  then show ?thesis using run inv' by blast
qed

lemma thread_step_step:
  assumes inv: "threads_inv rt E eng"
    and rd: "\<forall>k < length (m_sources E). readable rt (m_isfile E) (m_sources E ! k)"
    and p: "fst p < length (m_sources E)" "snd p < length (m_sources E)"
  shows "\<exists>eng'. thread_step rt p eng = Inr eng' \<and> threads_inv rt E eng'
           \<and> m_symmetric eng' = (m_symmetric eng)(p \<mapsto> threads_entry rt E p)"
  using multithread_deflate_pair_step [OF assms] by (auto simp: thread_step_def)

lemma for_each_thread_step:
  assumes rd: "\<forall>k < length (m_sources E). readable rt (m_isfile E) (m_sources E ! k)"
  shows "threads_inv rt E eng \<Longrightarrow>
    \<forall>p \<in> set ps. fst p < length (m_sources E) \<and> snd p < length (m_sources E) \<Longrightarrow>
    \<exists>eng'. for_each ps (thread_step rt) eng = Inr eng' \<and> threads_inv rt E eng'
           \<and> m_symmetric eng' =
               (\<lambda>q. if q \<in> set ps then Some (threads_entry rt E q) else m_symmetric eng q)"
proof (induction ps arbitrary: eng)
  case Nil
  then show ?case by simp
next
  case (Cons p ps)
  from Cons.prems(2) have p: "fst p < length (m_sources E)" "snd p < length (m_sources E)" by simp_all
  from thread_step_step [OF Cons.prems(1) rd p]
  obtain eng1 where e1: "thread_step rt p eng = Inr eng1" "threads_inv rt E eng1"
    "m_symmetric eng1 = (m_symmetric eng)(p \<mapsto> threads_entry rt E p)" by blast
  from Cons.IH [OF e1(2)] Cons.prems(2)
  obtain eng' where e': "for_each ps (thread_step rt) eng1 = Inr eng'" "threads_inv rt E eng'"
    "m_symmetric eng' = (\<lambda>q. if q \<in> set ps then Some (threads_entry rt E q) else m_symmetric eng1 q)"
    by auto
  have "m_symmetric eng' =
      (\<lambda>q. if q \<in> set (p # ps) then Some (threads_entry rt E q) else m_symmetric eng q)"
    by (auto simp: e'(3) e1(3) fun_eq_iff)
  then show ?case using e1(1) e'(1,2) by (simp add: bindE_def)
qed

lemma concat_update_set:
  assumes "t < length lanes" and "lanes ! t \<noteq> []"
  shows "set (concat lanes) = insert (hd (lanes ! t)) (set (concat (lanes[t := tl (lanes ! t)])))"
proof -
  have l: "lanes = take t lanes @ (hd (lanes ! t) # tl (lanes ! t)) # drop (Suc t) lanes"
    using assms by (simp add: id_take_nth_drop [symmetric])
  have u: "lanes[t := tl (lanes ! t)] = take t lanes @ tl (lanes ! t) # drop (Suc t) lanes"
    using assms by (simp add: upd_conv_take_nth_drop)
  have "set (concat lanes) =
      set (concat (take t lanes @ (hd (lanes ! t) # tl (lanes ! t)) # drop (Suc t) lanes))"
    using l by simp
  also have "\<dots> = insert (hd (lanes ! t))
      (set (concat (take t lanes @ tl (lanes ! t) # drop (Suc t) lanes)))"
    by (simp only: concat_append concat.simps set_append set_simps) blast
  finally show ?thesis using u by simp
qed

lemma thread_group_result:
  assumes rd: "\<forall>k < length (m_sources E). readable rt (m_isfile E) (m_sources E ! k)"
  shows "threads_inv rt E eng \<Longrightarrow>
    \<forall>p \<in> set (concat lanes). fst p < length (m_sources E) \<and> snd p < length (m_sources E) \<Longrightarrow>
    \<exists>eng'. thread_group rt sch lanes eng = Inr eng' \<and> threads_inv rt E eng'
           \<and> m_symmetric eng' =
               (\<lambda>q. if q \<in> set (concat lanes) then Some (threads_entry rt E q) else m_symmetric eng q)"
proof (induction sch arbitrary: lanes eng)
  case Nil
  then show ?case using for_each_thread_step [OF rd, of eng "concat lanes"] by simp
next
  case (Cons t ts)
  show ?case
  proof (cases "t < length lanes \<and> lanes ! t \<noteq> []")
    case False
    then show ?thesis using Cons.IH [OF Cons.prems] by auto
  next
    case True
    let ?p = "hd (lanes ! t)"
    let ?lanes = "lanes[t := tl (lanes ! t)]"
    have split: "set (concat lanes) = insert ?p (set (concat ?lanes))"
      by (rule concat_update_set) (use True in simp_all)
    then have p: "fst ?p < length (m_sources E)" "snd ?p < length (m_sources E)"
      using Cons.prems(2) by auto
    from thread_step_step [OF Cons.prems(1) rd p]
    obtain eng1 where e1: "thread_step rt ?p eng = Inr eng1" "threads_inv rt E eng1"
      "m_symmetric eng1 = (m_symmetric eng)(?p \<mapsto> threads_entry rt E ?p)" by blast
    have rest: "\<forall>p \<in> set (concat ?lanes). fst p < length (m_sources E) \<and> snd p < length (m_sources E)"
      using Cons.prems(2) split by auto
    from Cons.IH [OF e1(2) rest]
    obtain eng' where e': "thread_group rt ts ?lanes eng1 = Inr eng'" "threads_inv rt E eng'"
      "m_symmetric eng' =
         (\<lambda>q. if q \<in> set (concat ?lanes) then Some (threads_entry rt E q) else m_symmetric eng1 q)"
      by blast
    have "m_symmetric eng' =
        (\<lambda>q. if q \<in> set (concat lanes) then Some (threads_entry rt E q) else m_symmetric eng q)"
      unfolding split by (auto simp: e'(3) e1(3) fun_eq_iff)
    then show ?thesis using True e1(1) e'(1,2) by (simp add: bindE_def)
  qed
qed

lemma thread_step_cache:
  assumes inv: "threads_inv rt E eng"
    and rd: "\<forall>k < length (m_sources E). readable rt (m_isfile E) (m_sources E ! k)"
    and p: "fst p < length (m_sources E)" "snd p < length (m_sources E)"
    and run: "thread_step rt p eng = Inr eng'"
    and k: "k < length (m_sources E)"
      "m_cache eng ! k = cached_size rt E k \<or> k = fst p \<or> k = snd p"
  shows "m_cache eng' ! k = cached_size rt E k"
proof -
  obtain a b where ab: "p = (a, b)" by (cases p)
  have a: "a < length (m_sources E)" and b: "b < length (m_sources E)" using p ab by simp_all
  define eng1 where "eng1 = eng\<lparr>m_cache := (m_cache eng)[a := cached_size rt E a]\<rparr>"
  define eng2 where "eng2 = eng1\<lparr>m_cache := (m_cache eng1)[b := cached_size rt E b]\<rparr>"
  have inv1: "threads_inv rt E eng1" unfolding eng1_def by (rule threads_inv_update [OF inv a])
  have f1: "cache_fill rt a eng = Inr eng1" unfolding eng1_def by (rule cache_fill_step [OF inv rd a])
  have f2: "cache_fill rt b eng1 = Inr eng2" unfolding eng2_def by (rule cache_fill_step [OF inv1 rd b])
  have len: "length (m_cache eng) = length (m_sources E)" using inv by (simp add: threads_inv_def)
  have "multithread_deflate_pair rt p eng = Inr eng'"
    using run by (simp add: thread_step_def split: sum.splits)
  then have "m_cache eng' = m_cache eng2"
    by (auto simp: multithread_deflate_pair_def ab f1 f2 bindE_def split: sum.splits)
  then show ?thesis
    using k a b len by (auto simp: eng2_def eng1_def nth_list_update ab)
qed

lemma for_each_thread_cache:
  assumes rd: "\<forall>k < length (m_sources E). readable rt (m_isfile E) (m_sources E ! k)"
    and k: "k < length (m_sources E)"
  shows "threads_inv rt E eng \<Longrightarrow>
    \<forall>p \<in> set ps. fst p < length (m_sources E) \<and> snd p < length (m_sources E) \<Longrightarrow>
    for_each ps (thread_step rt) eng = Inr eng' \<Longrightarrow>
    m_cache eng ! k = cached_size rt E k \<or> k \<in> fst ` set ps \<union> snd ` set ps \<Longrightarrow>
    m_cache eng' ! k = cached_size rt E k"
proof (induction ps arbitrary: eng)
  case Nil
  then show ?case by simp
next
  case (Cons p ps)
  from Cons.prems(2) have p: "fst p < length (m_sources E)" "snd p < length (m_sources E)" by simp_all
  from thread_step_step [OF Cons.prems(1) rd p]
  obtain eng1 where e1: "thread_step rt p eng = Inr eng1" "threads_inv rt E eng1" by blast
  have rest: "for_each ps (thread_step rt) eng1 = Inr eng'"
    using Cons.prems(3) e1(1) by (simp add: bindE_def)
  have bounds: "\<forall>p \<in> set ps. fst p < length (m_sources E) \<and> snd p < length (m_sources E)"
    using Cons.prems(2) by simp
  show ?case
  proof (cases "m_cache eng ! k = cached_size rt E k \<or> k = fst p \<or> k = snd p")
    case True
    have "m_cache eng1 ! k = cached_size rt E k"
      by (rule thread_step_cache [OF Cons.prems(1) rd p e1(1) k True])
    then show ?thesis using Cons.IH [OF e1(2) bounds rest] by simp
  next
    case False
    then have "k \<in> fst ` set ps \<union> snd ` set ps" using Cons.prems(4) by auto
    then show ?thesis using Cons.IH [OF e1(2) bounds rest] by simp
  qed
qed

lemma thread_group_cache:
  assumes rd: "\<forall>k < length (m_sources E). readable rt (m_isfile E) (m_sources E ! k)"
    and k: "k < length (m_sources E)"
  shows "threads_inv rt E eng \<Longrightarrow>
    \<forall>p \<in> set (concat lanes). fst p < length (m_sources E) \<and> snd p < length (m_sources E) \<Longrightarrow>
    thread_group rt sch lanes eng = Inr eng' \<Longrightarrow>
    m_cache eng ! k = cached_size rt E k
      \<or> k \<in> fst ` set (concat lanes) \<union> snd ` set (concat lanes) \<Longrightarrow>
    m_cache eng' ! k = cached_size rt E k"
proof (induction sch arbitrary: lanes eng)
  case Nil
  then show ?case using for_each_thread_cache [OF rd k, of eng "concat lanes" eng'] by simp
next
  case (Cons t ts)
  show ?case
  proof (cases "t < length lanes \<and> lanes ! t \<noteq> []")
    case False
    then have "thread_group rt ts lanes eng = Inr eng'" using Cons.prems(3) by auto
    then show ?thesis using Cons.IH [OF Cons.prems(1,2) _ Cons.prems(4)] by simp
  next
    case True
    let ?p = "hd (lanes ! t)"
    let ?lanes = "lanes[t := tl (lanes ! t)]"
    have split: "set (concat lanes) = insert ?p (set (concat ?lanes))"
      by (rule concat_update_set) (use True in simp_all)
    then have p: "fst ?p < length (m_sources E)" "snd ?p < length (m_sources E)"
      using Cons.prems(2) by auto
    from thread_step_step [OF Cons.prems(1) rd p]
    obtain eng1 where e1: "thread_step rt ?p eng = Inr eng1" "threads_inv rt E eng1" by blast
    have rest: "thread_group rt ts ?lanes eng1 = Inr eng'"
      using Cons.prems(3) True e1(1) by (simp add: bindE_def)
    have bounds: "\<forall>p \<in> set (concat ?lanes).
        fst p < length (m_sources E) \<and> snd p < length (m_sources E)"
      using Cons.prems(2) split by auto
    show ?thesis
    proof (cases "m_cache eng ! k = cached_size rt E k \<or> k = fst ?p \<or> k = snd ?p")
      case True
      have "m_cache eng1 ! k = cached_size rt E k"
        by (rule thread_step_cache [OF Cons.prems(1) rd p e1(1) k True])
      then show ?thesis using Cons.IH [OF e1(2) bounds rest] by simp
    next
      case False
      then have "k \<in> fst ` set (concat ?lanes) \<union> snd ` set (concat ?lanes)"
        using Cons.prems(4) unfolding split by auto
      then show ?thesis using Cons.IH [OF e1(2) bounds rest] by simp
    qed
  qed
qed

lemma l_deflate_config:
  "m_compress e1 = m_compress e2 \<Longrightarrow> m_gzipparam e1 = m_gzipparam e2 \<Longrightarrow>
   m_bzip2param e1 = m_bzip2param e2 \<Longrightarrow> l_deflate rt e1 = l_deflate rt e2"
  by (simp add: l_deflate_def fun_eq_iff split: compresstype.splits)

lemma size_of_config:
  assumes "m_compress e1 = m_compress e2" "m_gzipparam e1 = m_gzipparam e2"
    "m_bzip2param e1 = m_bzip2param e2"
  shows "size_of rt e1 = size_of rt e2" and "size_of2 rt e1 = size_of2 rt e2"
  using l_deflate_config [OF assms, of rt] by (simp_all add: size_of_def size_of2_def fun_eq_iff)

lemma symmetric_init_fields [simp]:
  "m_sources (symmetric_init rt eng xs f) = xs"
  "m_isfile (symmetric_init rt eng xs f) = f"
  "m_cache (symmetric_init rt eng xs f) = ublas_vector rt (length xs)"
  "m_symmetric (symmetric_init rt eng xs f) = ublas_symmetric_matrix rt (length xs)"
  "m_unsymmetric (symmetric_init rt eng xs f) = Map.empty"
  "m_wavefront (symmetric_init rt eng xs f) = m_wavefront eng"
  "m_compress (symmetric_init rt eng xs f) = m_compress eng"
  "m_gzipparam (symmetric_init rt eng xs f) = m_gzipparam eng"
  "m_bzip2param (symmetric_init rt eng xs f) = m_bzip2param eng"
  by (simp_all add: symmetric_init_def)

lemma size_of_symmetric_init [simp]:
  "size_of rt (symmetric_init rt eng xs f) = size_of rt eng"
  "size_of2 rt (symmetric_init rt eng xs f) = size_of2 rt eng"
  by (rule size_of_config; simp)+

lemma ublas_vector_length [simp]: "length (ublas_vector rt n) = n"
  by (simp add: ublas_vector_def)

lemma ublas_vector_nth [simp]: "k < n \<Longrightarrow> ublas_vector rt n ! k = vector_storage rt k"
  by (simp add: ublas_vector_def)

lemma symmetric_sequential_result:
  assumes ne: "p_strvec \<noteq> []"
    and rd: "\<forall>k < length p_strvec. readable rt p_isfile (p_strvec ! k)"
    and hw: "\<not> 1 < hardware_concurrency rt"
  shows "\<exists>eng'. symmetric rt eng p_strvec p_isfile = Inr (m_symmetric eng', eng')
     \<and> eng'\<lparr>m_cache := ublas_vector rt (length p_strvec),
             m_symmetric := ublas_symmetric_matrix rt (length p_strvec)\<rparr>
         = symmetric_init rt eng p_strvec p_isfile
     \<and> (\<forall>k < length p_strvec. m_cache eng' ! k = size_of rt eng p_isfile (p_strvec ! k))
     \<and> length (m_cache eng') = length p_strvec
     \<and> (\<forall>a b. m_symmetric eng' (a, b) =
           (if a \<le> b \<and> b < length p_strvec
            then Some (symmetric_entry rt eng p_isfile p_strvec a b) else None))"
proof -
  let ?E = "symmetric_init rt eng p_strvec p_isfile"
  let ?n = "length p_strvec"
  have "\<exists>eng'. symmetric_loops rt ?E = Inr eng' \<and> symmetric_inv rt ?E ?n ?n eng'"
    using symmetric_loops_inv [of ?E rt] rd by simp
  then obtain eng' where run: "symmetric_loops rt ?E = Inr eng'"
    and inv: "symmetric_inv rt ?E ?n ?n eng'" by blast
  have n: "0 < ?n" using ne by simp
  have ent: "symmetric_entry rt ?E p_isfile p_strvec = symmetric_entry rt eng p_isfile p_strvec"
    by (simp add: symmetric_entry_def fun_eq_iff)
  have vis: "visited ?n ?n a b" if "a \<le> b" "b < ?n" for a b
    using that by (simp add: visited_def min_def)
  have m: "m_symmetric eng' (a, b) =
           (if a \<le> b \<and> b < ?n then Some (symmetric_entry rt eng p_isfile p_strvec a b) else None)"
    for a b
    using inv vis [of a b] by (auto simp: symmetric_inv_def ent ublas_symmetric_matrix_def)
  have c: "\<forall>k < ?n. m_cache eng' ! k = size_of rt eng p_isfile (p_strvec ! k)"
    using inv n by (auto simp: symmetric_inv_def)
  have "symmetric rt eng p_strvec p_isfile = Inr (m_symmetric eng', eng')"
    using ne hw run by (simp add: symmetric_def Let_def bindE_def)
  then show ?thesis
    using inv m c by (simp add: symmetric_inv_def)
qed

lemma lanes_cover:
  assumes "0 < T"
  shows "set (concat (map (wavefront_range (lanes_of T 0 ps)) [0..<T])) = set ps"
proof (rule set_eqI)
  fix p
  have "p \<in> set (concat (map (wavefront_range (lanes_of T 0 ps)) [0..<T]))
      \<longleftrightarrow> (\<exists>l \<in> set [0..<T]. p \<in> set (wavefront_range (lanes_of T 0 ps) l))"
    by (rule concat_map_mem)
  also have "\<dots> \<longleftrightarrow> (\<exists>l < T. (l, p) \<in> set (lanes_of T 0 ps))"
    by (auto simp: wavefront_range_mem)
  also have "\<dots> \<longleftrightarrow> p \<in> set (map snd (lanes_of T 0 ps))"
  proof
    assume "\<exists>l < T. (l, p) \<in> set (lanes_of T 0 ps)"
    then show "p \<in> set (map snd (lanes_of T 0 ps))" by force
  next
    assume "p \<in> set (map snd (lanes_of T 0 ps))"
    then obtain l where l: "(l, p) \<in> set (lanes_of T 0 ps)" by auto
    then have "l < T" using lanes_of_key [OF assms l] by simp
    then show "\<exists>l < T. (l, p) \<in> set (lanes_of T 0 ps)" using l by blast
  qed
  finally show "p \<in> set (concat (map (wavefront_range (lanes_of T 0 ps)) [0..<T])) \<longleftrightarrow> p \<in> set ps"
    by (simp add: lanes_of_snd)
qed

lemma symmetric_threads_result:
  assumes ne: "p_strvec \<noteq> []"
    and rd: "\<forall>k < length p_strvec. readable rt p_isfile (p_strvec ! k)"
    and hw: "1 < hardware_concurrency rt"
  shows "\<exists>eng'. symmetric rt eng p_strvec p_isfile = Inr (m_symmetric eng', eng')
     \<and> eng'\<lparr>m_cache := ublas_vector rt (length p_strvec),
             m_symmetric := ublas_symmetric_matrix rt (length p_strvec),
             m_wavefront := m_wavefront eng\<rparr>
         = symmetric_init rt eng p_strvec p_isfile
     \<and> m_wavefront eng' = lanes_of (hardware_concurrency rt) 0 (antidiagonals (length p_strvec))
     \<and> length (m_cache eng') = length p_strvec
     \<and> (\<forall>a b. m_symmetric eng' (a, b) =
           (if a < b \<and> b < length p_strvec
            then Some (ncd_value (size_of2 rt eng p_isfile (p_strvec ! a) (p_strvec ! b))
                         (parallel_cache rt eng p_isfile p_strvec a)
                         (parallel_cache rt eng p_isfile p_strvec b))
            else ublas_symmetric_matrix rt (length p_strvec) (a, b)))
     \<and> (\<forall>k < length p_strvec. m_cache eng' ! k = parallel_cache rt eng p_isfile p_strvec k)"
proof -
  let ?E0 = "symmetric_init rt eng p_strvec p_isfile"
  let ?n = "length p_strvec"
  let ?T = "hardware_concurrency rt"
  let ?sz = "\<lambda>k. size_of rt eng p_isfile (p_strvec ! k)"
  have n: "0 < ?n" using ne by simp
  have r0: "readable rt (m_isfile ?E0) (p_strvec ! 0)"
    and r1: "readable rt (m_isfile ?E0) (p_strvec ! (?n - 1))"
    using rd n by simp_all
  define E1 where "E1 = ?E0\<lparr>m_cache := (m_cache ?E0)[0 := ?sz 0]\<rparr>"
  define E2 where "E2 = E1\<lparr>m_cache := (m_cache E1)[?n - 1 := ?sz (?n - 1)]\<rparr>"
  define E where "E = getWavefrontIndex ?n ?T E2"
  have d0: "deflate1 rt ?E0 (p_strvec ! 0) = Inr (?sz 0)"
    using deflate1_readable [OF r0] by simp
  have d1: "deflate1 rt E1 (p_strvec ! (?n - 1)) = Inr (?sz (?n - 1))"
    using deflate1_readable [of rt E1 "p_strvec ! (?n - 1)"] r1
      size_of_config(1) [of E1 eng rt]
    by (simp add: E1_def)
  have run: "symmetric_threads rt p_strvec ?E0 =
      thread_group rt (schedule rt) (map (wavefront_range (m_wavefront E)) [0..<?T]) E"
    by (simp only: symmetric_threads_def d0 bindE_def sum.case Let_def E1_def [symmetric] d1
        E2_def [symmetric] E_def [symmetric])
  have Ef: "m_sources E = p_strvec" "m_isfile E = p_isfile"
    "m_cache E = (ublas_vector rt ?n)[0 := ?sz 0, ?n - 1 := ?sz (?n - 1)]"
    "m_symmetric E = ublas_symmetric_matrix rt ?n"
    "m_wavefront E = lanes_of ?T 0 (antidiagonals ?n)"
    by (simp_all add: E_def getWavefrontIndex_lanes)
      (simp_all add: getWavefrontIndex_def E2_def E1_def)
  have Esz: "size_of rt E = size_of rt eng" "size_of2 rt E = size_of2 rt eng"
    by (rule size_of_config; simp add: E_def getWavefrontIndex_def E2_def E1_def)+
  have rdE: "\<forall>k < length (m_sources E). readable rt (m_isfile E) (m_sources E ! k)"
    using rd by (simp add: Ef)
  have inv: "threads_inv rt E E"
    by (simp add: threads_inv_def Ef)
  have cover: "set (concat (map (wavefront_range (m_wavefront E)) [0..<?T])) = {(i, j). i < j \<and> j < ?n}"
    using lanes_cover [of ?T "antidiagonals ?n"] hw by (simp add: Ef antidiagonals_set)
  have range: "\<forall>p \<in> set (concat (map (wavefront_range (m_wavefront E)) [0..<?T])).
      fst p < length (m_sources E) \<and> snd p < length (m_sources E)"
    unfolding cover by (auto simp: Ef)
  from thread_group_result [OF rdE inv range, of "schedule rt"]
  obtain eng' where e': "thread_group rt (schedule rt)
        (map (wavefront_range (m_wavefront E)) [0..<?T]) E = Inr eng'"
    "threads_inv rt E eng'"
    "m_symmetric eng' = (\<lambda>q. if q \<in> {(i, j). i < j \<and> j < ?n}
        then Some (threads_entry rt E q) else m_symmetric E q)"
    unfolding cover by blast
  have ck: "m_cache E ! k = (if k = ?n - 1 then ?sz (?n - 1) else if k = 0 then ?sz 0
                              else vector_storage rt k)" if "k < ?n" for k
    using that by (auto simp: Ef(3) nth_list_update)
  have cs: "cached_size rt E k = parallel_cache rt eng p_isfile p_strvec k" if "k < ?n" for k
    using ck [OF that] by (auto simp: cached_size_def parallel_cache_def Ef(1,2) Esz)
  have m: "m_symmetric eng' (a, b) =
           (if a < b \<and> b < ?n
            then Some (ncd_value (size_of2 rt eng p_isfile (p_strvec ! a) (p_strvec ! b))
                         (parallel_cache rt eng p_isfile p_strvec a)
                         (parallel_cache rt eng p_isfile p_strvec b))
            else ublas_symmetric_matrix rt ?n (a, b))" for a b
    using cs [of a] cs [of b] by (auto simp: e'(3) threads_entry_def Ef Esz)
  have fr: "eng'\<lparr>m_cache := m_cache E, m_symmetric := m_symmetric E\<rparr> = E"
    and len: "length (m_cache eng') = ?n"
    using e'(2) by (simp_all add: threads_inv_def Ef)
  have wf': "m_wavefront eng' = lanes_of ?T 0 (antidiagonals ?n)"
    using frame_fields(6) [OF fr] by (simp add: Ef)
  have "eng'\<lparr>m_cache := ublas_vector rt ?n, m_symmetric := ublas_symmetric_matrix rt ?n,
             m_wavefront := m_wavefront eng\<rparr>
      = E\<lparr>m_cache := ublas_vector rt ?n, m_symmetric := ublas_symmetric_matrix rt ?n,
             m_wavefront := m_wavefront eng\<rparr>"
    using fr by (cases eng'; cases E) simp
  also have "\<dots> = ?E0"
    by (simp add: E_def getWavefrontIndex_def E2_def E1_def symmetric_init_def)
  finally have frame: "eng'\<lparr>m_cache := ublas_vector rt ?n,
      m_symmetric := ublas_symmetric_matrix rt ?n, m_wavefront := m_wavefront eng\<rparr> = ?E0" .
  have cache: "m_cache eng' ! k = parallel_cache rt eng p_isfile p_strvec k" if k: "k < ?n" for k
  proof -
    have kE: "k < length (m_sources E)" using k by (simp add: Ef)
    have "m_cache E ! k = cached_size rt E k
        \<or> k \<in> fst ` set (concat (map (wavefront_range (m_wavefront E)) [0..<?T]))
            \<union> snd ` set (concat (map (wavefront_range (m_wavefront E)) [0..<?T]))"
    proof (cases "k = 0 \<or> k = ?n - 1")
      case True
      then have "m_cache E ! k = size_of rt E (m_isfile E) (m_sources E ! k)"
        using ck [OF k] by (auto simp: Ef(1,2) Esz)
      then show ?thesis by (simp add: cached_size_def)
    next
      case False
      then have "(k, ?n - 1) \<in> {(i, j). i < j \<and> j < ?n}" using k by auto
      then have "k \<in> fst ` {(i, j). i < j \<and> j < ?n}" by force
      then show ?thesis unfolding cover by simp
    qed
    from thread_group_cache [OF rdE kE inv range e'(1) this]
    show ?thesis using cs [OF k] by simp
  qed
  have "symmetric rt eng p_strvec p_isfile = Inr (m_symmetric eng', eng')"
    using ne hw run e'(1) by (simp add: symmetric_def Let_def bindE_def)
  then show ?thesis
    using frame wf' len m cache by blast
qed

subsection \<open>What the batch calls return\<close>

lemma unsymmetric_result:
  assumes ne: "p_strvec \<noteq> []"
    and rd: "\<forall>k < length p_strvec. readable rt p_isfile (p_strvec ! k)"
  shows "\<exists>st. unsymmetric_run rt eng p_strvec p_isfile = Inr (st, eng\<lparr>m_isfile := p_isfile\<rparr>)
     \<and> unsymmetric rt eng p_strvec p_isfile = Inr (l_distances st, eng\<lparr>m_isfile := p_isfile\<rparr>)
     \<and> (\<forall>a b. l_distances st (a, b) =
           (if a < length p_strvec \<and> b < length p_strvec
            then Some (unsymmetric_entry rt eng p_isfile p_strvec a b) else None))
     \<and> (\<forall>k < length p_strvec. l_cache st ! k = size_of rt eng p_isfile (p_strvec ! k))
     \<and> distinct (l_calls st)
     \<and> (\<forall>c. c \<in> set (l_calls st) \<longleftrightarrow>
           (case c of deflate_item k \<Rightarrow> k < length p_strvec
            | deflate_items a b \<Rightarrow> a < length p_strvec \<and> b < length p_strvec \<and> a \<noteq> b))"
proof -
  let ?n = "length p_strvec"
  from unsymmetric_run_inv [OF ne rd, of eng]
  obtain st where run: "unsymmetric_run rt eng p_strvec p_isfile = Inr (st, eng\<lparr>m_isfile := p_isfile\<rparr>)"
    and inv: "unsymmetric_inv rt eng p_isfile p_strvec ?n ?n st" by blast
  have n: "0 < ?n" using ne by simp
  have vis: "visited ?n ?n a b" if "a < ?n" "b < ?n" for a b
    using that by (simp add: visited_def min_def)
  have m: "l_distances st (a, b) =
           (if a < ?n \<and> b < ?n then Some (unsymmetric_entry rt eng p_isfile p_strvec a b) else None)"
    for a b
    using inv vis [of a b] by (auto simp: unsymmetric_inv_def ublas_matrix_def)
  have c: "\<forall>k < ?n. l_cache st ! k = size_of rt eng p_isfile (p_strvec ! k)"
    using inv n by (auto simp: unsymmetric_inv_def)
  have d: "distinct (l_calls st)" using inv by (simp add: unsymmetric_inv_def)
  have calls: "c \<in> set (l_calls st) \<longleftrightarrow>
           (case c of deflate_item k \<Rightarrow> k < ?n
            | deflate_items a b \<Rightarrow> a < ?n \<and> b < ?n \<and> a \<noteq> b)" for c
  proof -
    have "c \<in> set (l_calls st) \<longleftrightarrow>
            (case c of deflate_item k \<Rightarrow> k < ?n \<and> (0 < ?n \<or> k < ?n)
             | deflate_items a b \<Rightarrow> a < ?n \<and> b < ?n \<and> a \<noteq> b \<and> visited ?n ?n a b)"
      using inv unfolding unsymmetric_inv_def by blast
    then show ?thesis using vis by (cases c) auto
  qed
  have "unsymmetric rt eng p_strvec p_isfile = Inr (l_distances st, eng\<lparr>m_isfile := p_isfile\<rparr>)"
    by (simp add: unsymmetric_def run bindE_def)
  then show ?thesis using run m c d calls by blast
qed

lemma clamped_distance_le: "clamped_distance l_both l_first l_second \<le> 1"
  by (simp add: clamped_distance_def)

lemma clamped_distance_nonneg:
  assumes "0 < max l_first l_second"
  shows "0 \<le> (clamped_distance l_both l_first l_second :: 't::linordered_field)
      \<longleftrightarrow> min l_first l_second \<le> l_both"
proof -
  have pos: "(0::'t) < of_nat (max l_first l_second)" using assms by simp
  have "0 \<le> (clamped_distance l_both l_first l_second :: 't)
      \<longleftrightarrow> (0::'t) \<le> (of_nat l_both - of_nat (min l_first l_second)) / of_nat (max l_first l_second)"
    by (simp add: clamped_distance_def min_le_iff_disj)
  also have "\<dots> \<longleftrightarrow> (0::'t) \<le> of_nat l_both - of_nat (min l_first l_second)"
    using pos by (simp only: pos_le_divide_eq mult_zero_left)
  also have "\<dots> \<longleftrightarrow> min l_first l_second \<le> l_both"
    by simp
  finally show ?thesis .
qed

lemma ncd_value_range:
  "0 \<le> (ncd_value l_both l_first l_second :: 't::linordered_field)
   \<and> (ncd_value l_both l_first l_second :: 't) \<le> 1"
proof -
  have "(0::'t) \<le> of_nat (unat (l_both - min l_first l_second)) / of_nat (unat (max l_first l_second))"
    by (intro divide_nonneg_nonneg of_nat_0_le_iff)
  then show ?thesis
    unfolding ncd_value_def by (simp only: min_le_iff_disj min.bounded_iff) simp
qed

lemma two_items_readable:
  "\<forall>k < length [''a'', ''b'']. readable rt False ([''a'', ''b''] ! k)"
  by (simp add: readable_def nth_Cons split: nat.split)

lemma sample_sizes:
  "size_of (sample_runtime codec files T vs ms sch) ncd_default False a = of_nat (codec a)"
  "size_of2 (sample_runtime codec files T vs ms sch) ncd_default False a b = of_nat (codec (a @ b))"
  by (simp_all add: size_of_def size_of2_def source_bytes_def l_deflate_def sample_runtime_def
      ncd_default_def ncd_init_def)

lemma sample_fields [simp]:
  "hardware_concurrency (sample_runtime codec files T vs ms sch) = T"
  "vector_storage (sample_runtime codec files T vs ms sch) = vs"
  "matrix_storage (sample_runtime codec files T vs ms sch) = ms"
  by (simp_all add: sample_runtime_def)

lemma symmetric_entries:
  assumes ne: "p_strvec \<noteq> []"
    and rd: "\<forall>k < length p_strvec. readable rt p_isfile (p_strvec ! k)"
  shows "\<exists>m e. symmetric rt eng p_strvec p_isfile = Inr (m, e)
     \<and> (\<forall>a b. a < b \<and> b < length p_strvec \<longrightarrow>
           m (a, b) = Some (ncd_value (size_of2 rt eng p_isfile (p_strvec ! a) (p_strvec ! b))
              (if 1 < hardware_concurrency rt then parallel_cache rt eng p_isfile p_strvec a
               else size_of rt eng p_isfile (p_strvec ! a))
              (if 1 < hardware_concurrency rt then parallel_cache rt eng p_isfile p_strvec b
               else size_of rt eng p_isfile (p_strvec ! b))))
     \<and> (\<forall>a < length p_strvec.
           m (a, a) = Some (if 1 < hardware_concurrency rt then matrix_storage rt (a, a) else 0))
     \<and> m_symmetric e = m \<and> m_sources e = p_strvec \<and> m_isfile e = p_isfile
     \<and> length (m_cache e) = length p_strvec \<and> m_unsymmetric e = Map.empty
     \<and> m_compress e = m_compress eng \<and> m_gzipparam e = m_gzipparam eng
     \<and> m_bzip2param e = m_bzip2param eng"
proof (cases "1 < hardware_concurrency rt")
  case True
  from symmetric_threads_result [OF ne rd True, of eng]
  obtain e where run: "symmetric rt eng p_strvec p_isfile = Inr (m_symmetric e, e)"
    and fr: "e\<lparr>m_cache := ublas_vector rt (length p_strvec),
             m_symmetric := ublas_symmetric_matrix rt (length p_strvec),
             m_wavefront := m_wavefront eng\<rparr>
         = symmetric_init rt eng p_strvec p_isfile"
    and len: "length (m_cache e) = length p_strvec"
    and m: "\<forall>a b. m_symmetric e (a, b) =
           (if a < b \<and> b < length p_strvec
            then Some (ncd_value (size_of2 rt eng p_isfile (p_strvec ! a) (p_strvec ! b))
                         (parallel_cache rt eng p_isfile p_strvec a)
                         (parallel_cache rt eng p_isfile p_strvec b))
            else ublas_symmetric_matrix rt (length p_strvec) (a, b))"
    by (elim exE conjE) (rule that; assumption)
  have f: "m_sources e = p_strvec" "m_isfile e = p_isfile" "m_unsymmetric e = Map.empty"
    "m_compress e = m_compress eng" "m_gzipparam e = m_gzipparam eng"
    "m_bzip2param e = m_bzip2param eng"
    using arg_cong [OF fr, of m_sources] arg_cong [OF fr, of m_isfile]
      arg_cong [OF fr, of m_unsymmetric] arg_cong [OF fr, of m_compress]
      arg_cong [OF fr, of m_gzipparam] arg_cong [OF fr, of m_bzip2param]
    by simp_all
  have d: "\<forall>a < length p_strvec. m_symmetric e (a, a) = Some (matrix_storage rt (a, a))"
    using m by (simp add: ublas_symmetric_matrix_def)
  show ?thesis
    using True run len m d f by simp
next
  case False
  from symmetric_sequential_result [OF ne rd False, of eng]
  obtain e where run: "symmetric rt eng p_strvec p_isfile = Inr (m_symmetric e, e)"
    and fr: "e\<lparr>m_cache := ublas_vector rt (length p_strvec),
             m_symmetric := ublas_symmetric_matrix rt (length p_strvec)\<rparr>
         = symmetric_init rt eng p_strvec p_isfile"
    and len: "length (m_cache e) = length p_strvec"
    and m: "\<forall>a b. m_symmetric e (a, b) =
           (if a \<le> b \<and> b < length p_strvec
            then Some (symmetric_entry rt eng p_isfile p_strvec a b) else None)"
    by (elim exE conjE) (rule that; assumption)
  have f: "m_sources e = p_strvec" "m_isfile e = p_isfile" "m_unsymmetric e = Map.empty"
    "m_compress e = m_compress eng" "m_gzipparam e = m_gzipparam eng"
    "m_bzip2param e = m_bzip2param eng"
    using arg_cong [OF fr, of m_sources] arg_cong [OF fr, of m_isfile]
      arg_cong [OF fr, of m_unsymmetric] arg_cong [OF fr, of m_compress]
      arg_cong [OF fr, of m_gzipparam] arg_cong [OF fr, of m_bzip2param]
    by simp_all
  have d: "\<forall>a < length p_strvec. m_symmetric e (a, a) = Some 0"
    using m by (simp add: symmetric_entry_def)
  have o: "\<forall>a b. a < b \<and> b < length p_strvec \<longrightarrow>
           m_symmetric e (a, b) =
             Some (ncd_value (size_of2 rt eng p_isfile (p_strvec ! a) (p_strvec ! b))
                     (size_of rt eng p_isfile (p_strvec ! a)) (size_of rt eng p_isfile (p_strvec ! b)))"
    using m by (simp add: symmetric_entry_def)
  show ?thesis
    using False run len o d f by simp
qed

lemma symmetric_atI: "a < b \<Longrightarrow> symmetric_at m a b = m (a, b)" "a < b \<Longrightarrow> symmetric_at m b a = m (a, b)"
  "symmetric_at m a a = m (a, a)"
  by (simp_all add: symmetric_at_def min_def max_def)

lemma threads_runtime_bytes:
  "l_deflate (rt\<lparr>hardware_concurrency := T, schedule := sch\<rparr>) = l_deflate rt"
  "source_bytes (rt\<lparr>hardware_concurrency := T, schedule := sch\<rparr>) = source_bytes rt"
  by (simp_all add: l_deflate_def source_bytes_def fun_eq_iff split: compresstype.splits)

lemma threads_runtime [simp]:
  "readable (rt\<lparr>hardware_concurrency := T, schedule := sch\<rparr>) = readable rt"
  "size_of (rt\<lparr>hardware_concurrency := T, schedule := sch\<rparr>) = size_of rt"
  "size_of2 (rt\<lparr>hardware_concurrency := T, schedule := sch\<rparr>) = size_of2 rt"
  "parallel_cache (rt\<lparr>hardware_concurrency := T, schedule := sch\<rparr>) = parallel_cache rt"
  by (simp_all add: readable_def size_of_def size_of2_def parallel_cache_def threads_runtime_bytes
      fun_eq_iff)

lemma symmetric_entries_sequential:
  assumes "p_strvec \<noteq> []"
    and "\<forall>k < length p_strvec. readable rt p_isfile (p_strvec ! k)"
    and "\<not> 1 < hardware_concurrency rt"
  shows "\<exists>m e. symmetric rt eng p_strvec p_isfile = Inr (m, e)
     \<and> (\<forall>a b. a < b \<and> b < length p_strvec \<longrightarrow>
           m (a, b) = Some (ncd_value (size_of2 rt eng p_isfile (p_strvec ! a) (p_strvec ! b))
              (size_of rt eng p_isfile (p_strvec ! a)) (size_of rt eng p_isfile (p_strvec ! b))))
     \<and> (\<forall>a < length p_strvec. m (a, a) = Some 0)"
  using symmetric_entries [OF assms(1,2), of eng] assms(3) by simp blast

lemma symmetric_entries_threads:
  assumes "p_strvec \<noteq> []"
    and "\<forall>k < length p_strvec. readable rt p_isfile (p_strvec ! k)"
    and "1 < hardware_concurrency rt"
  shows "\<exists>m e. symmetric rt eng p_strvec p_isfile = Inr (m, e)
     \<and> (\<forall>a b. a < b \<and> b < length p_strvec \<longrightarrow>
           m (a, b) = Some (ncd_value (size_of2 rt eng p_isfile (p_strvec ! a) (p_strvec ! b))
              (parallel_cache rt eng p_isfile p_strvec a) (parallel_cache rt eng p_isfile p_strvec b)))
     \<and> (\<forall>a < length p_strvec. m (a, a) = Some (matrix_storage rt (a, a)))"
  using symmetric_entries [OF assms(1,2), of eng] assms(3) by simp blast

lemma three_items_readable:
  "\<forall>k < length [''a'', ''b'', ''c'']. readable rt False ([''a'', ''b'', ''c''] ! k)"
  by (simp add: readable_def nth_Cons split: nat.split)

lemma symmetric_engine:
  assumes ne: "p_strvec \<noteq> []"
    and rd: "\<forall>k < length p_strvec. readable rt p_isfile (p_strvec ! k)"
  shows "\<exists>m. symmetric rt eng p_strvec p_isfile =
        Inr (m, eng\<lparr> m_sources := p_strvec, m_isfile := p_isfile,
                     m_cache := map (\<lambda>k. if 1 < hardware_concurrency rt
                                          then parallel_cache rt eng p_isfile p_strvec k
                                          else size_of rt eng p_isfile (p_strvec ! k))
                                    [0..<length p_strvec],
                     m_symmetric := m, m_unsymmetric := Map.empty,
                     m_wavefront := (if 1 < hardware_concurrency rt
                                     then lanes_of (hardware_concurrency rt) 0
                                            (antidiagonals (length p_strvec))
                                     else m_wavefront eng) \<rparr>)
     \<and> (\<forall>a b. m (a, b) =
           (if a < b \<and> b < length p_strvec
            then Some (ncd_value (size_of2 rt eng p_isfile (p_strvec ! a) (p_strvec ! b))
                   (if 1 < hardware_concurrency rt then parallel_cache rt eng p_isfile p_strvec a
                    else size_of rt eng p_isfile (p_strvec ! a))
                   (if 1 < hardware_concurrency rt then parallel_cache rt eng p_isfile p_strvec b
                    else size_of rt eng p_isfile (p_strvec ! b)))
            else if a = b \<and> b < length p_strvec
            then Some (if 1 < hardware_concurrency rt then matrix_storage rt (a, a) else 0)
            else None))"
proof (cases "1 < hardware_concurrency rt")
  case True
  let ?n = "length p_strvec"
  from symmetric_threads_result [OF ne rd True, of eng]
  obtain e where run: "symmetric rt eng p_strvec p_isfile = Inr (m_symmetric e, e)"
    and fr: "e\<lparr>m_cache := ublas_vector rt ?n, m_symmetric := ublas_symmetric_matrix rt ?n,
             m_wavefront := m_wavefront eng\<rparr>
         = symmetric_init rt eng p_strvec p_isfile"
    and w: "m_wavefront e = lanes_of (hardware_concurrency rt) 0 (antidiagonals ?n)"
    and len: "length (m_cache e) = ?n"
    and mm: "\<forall>a b. m_symmetric e (a, b) =
           (if a < b \<and> b < ?n
            then Some (ncd_value (size_of2 rt eng p_isfile (p_strvec ! a) (p_strvec ! b))
                         (parallel_cache rt eng p_isfile p_strvec a)
                         (parallel_cache rt eng p_isfile p_strvec b))
            else ublas_symmetric_matrix rt ?n (a, b))"
    and c: "\<forall>k < ?n. m_cache e ! k = parallel_cache rt eng p_isfile p_strvec k"
    by (elim exE conjE) (rule that; assumption)
  have cache: "m_cache e = map (parallel_cache rt eng p_isfile p_strvec) [0..<?n]"
    by (rule nth_equalityI) (use len c in simp_all)
  define m where "m = m_symmetric e"
  have "e = (e\<lparr>m_cache := ublas_vector rt ?n, m_symmetric := ublas_symmetric_matrix rt ?n,
             m_wavefront := m_wavefront eng\<rparr>)
          \<lparr>m_cache := m_cache e, m_symmetric := m_symmetric e, m_wavefront := m_wavefront e\<rparr>"
    by simp
  also have "\<dots> = eng\<lparr> m_sources := p_strvec, m_isfile := p_isfile,
                     m_cache := map (parallel_cache rt eng p_isfile p_strvec) [0..<?n],
                     m_symmetric := m, m_unsymmetric := Map.empty,
                     m_wavefront := lanes_of (hardware_concurrency rt) 0 (antidiagonals ?n) \<rparr>"
    unfolding fr by (simp add: symmetric_init_def cache w m_def)
  finally have "e = eng\<lparr> m_sources := p_strvec, m_isfile := p_isfile,
                     m_cache := map (parallel_cache rt eng p_isfile p_strvec) [0..<?n],
                     m_symmetric := m, m_unsymmetric := Map.empty,
                     m_wavefront := lanes_of (hardware_concurrency rt) 0 (antidiagonals ?n) \<rparr>" .
  then have "symmetric rt eng p_strvec p_isfile = Inr (m, eng\<lparr> m_sources := p_strvec, m_isfile := p_isfile,
                     m_cache := map (parallel_cache rt eng p_isfile p_strvec) [0..<?n],
                     m_symmetric := m, m_unsymmetric := Map.empty,
                     m_wavefront := lanes_of (hardware_concurrency rt) 0 (antidiagonals ?n) \<rparr>)"
    using run by (simp add: m_def [symmetric])
  moreover have "\<forall>a b. m (a, b) =
           (if a < b \<and> b < ?n
            then Some (ncd_value (size_of2 rt eng p_isfile (p_strvec ! a) (p_strvec ! b))
                         (parallel_cache rt eng p_isfile p_strvec a)
                         (parallel_cache rt eng p_isfile p_strvec b))
            else if a = b \<and> b < ?n then Some (matrix_storage rt (a, a)) else None)"
    using mm by (auto simp: m_def ublas_symmetric_matrix_def)
  ultimately show ?thesis using True by (intro exI [of _ m]) simp
next
  case False
  let ?n = "length p_strvec"
  from symmetric_sequential_result [OF ne rd False, of eng]
  obtain e where run: "symmetric rt eng p_strvec p_isfile = Inr (m_symmetric e, e)"
    and fr: "e\<lparr>m_cache := ublas_vector rt ?n, m_symmetric := ublas_symmetric_matrix rt ?n\<rparr>
         = symmetric_init rt eng p_strvec p_isfile"
    and c: "\<forall>k < ?n. m_cache e ! k = size_of rt eng p_isfile (p_strvec ! k)"
    and len: "length (m_cache e) = ?n"
    and mm: "\<forall>a b. m_symmetric e (a, b) =
           (if a \<le> b \<and> b < ?n
            then Some (symmetric_entry rt eng p_isfile p_strvec a b) else None)"
    by (elim exE conjE) (rule that; assumption)
  have cache: "m_cache e = map (\<lambda>k. size_of rt eng p_isfile (p_strvec ! k)) [0..<?n]"
    by (rule nth_equalityI) (use len c in simp_all)
  define m where "m = m_symmetric e"
  have "e = (e\<lparr>m_cache := ublas_vector rt ?n, m_symmetric := ublas_symmetric_matrix rt ?n\<rparr>)
          \<lparr>m_cache := m_cache e, m_symmetric := m_symmetric e\<rparr>"
    by simp
  also have "\<dots> = eng\<lparr> m_sources := p_strvec, m_isfile := p_isfile,
                     m_cache := map (\<lambda>k. size_of rt eng p_isfile (p_strvec ! k)) [0..<?n],
                     m_symmetric := m, m_unsymmetric := Map.empty,
                     m_wavefront := m_wavefront eng \<rparr>"
    unfolding fr by (simp add: symmetric_init_def cache m_def)
  finally have "e = eng\<lparr> m_sources := p_strvec, m_isfile := p_isfile,
                     m_cache := map (\<lambda>k. size_of rt eng p_isfile (p_strvec ! k)) [0..<?n],
                     m_symmetric := m, m_unsymmetric := Map.empty,
                     m_wavefront := m_wavefront eng \<rparr>" .
  then have "symmetric rt eng p_strvec p_isfile = Inr (m, eng\<lparr> m_sources := p_strvec, m_isfile := p_isfile,
                     m_cache := map (\<lambda>k. size_of rt eng p_isfile (p_strvec ! k)) [0..<?n],
                     m_symmetric := m, m_unsymmetric := Map.empty,
                     m_wavefront := m_wavefront eng \<rparr>)"
    using run by (simp add: m_def [symmetric])
  moreover have "\<forall>a b. m (a, b) =
           (if a < b \<and> b < ?n
            then Some (ncd_value (size_of2 rt eng p_isfile (p_strvec ! a) (p_strvec ! b))
                         (size_of rt eng p_isfile (p_strvec ! a))
                         (size_of rt eng p_isfile (p_strvec ! b)))
            else if a = b \<and> b < ?n then Some 0 else None)"
    using mm by (auto simp: m_def symmetric_entry_def)
  ultimately show ?thesis using False by (intro exI [of _ m]) simp
qed

section \<open>The claims\<close>

text \<open>
  C1. For items that \<open>deflate\<close> accepts, \<open>calculate\<close> returns the size of the two items
  compressed together, minus the smaller of the sizes of the items alone, divided by the
  larger of them; nothing bounds the value (in the instance below it is 2).
\<close>

theorem calculate_formula:
  assumes "readable rt p_isfile a" and "readable rt p_isfile b"
  shows "calculate rt eng a b p_isfile =
     Inr ((of_nat (unat (size_of2 rt eng p_isfile a b))
            - of_nat (min (unat (size_of rt eng p_isfile a)) (unat (size_of rt eng p_isfile b))))
          / of_nat (max (unat (size_of rt eng p_isfile a)) (unat (size_of rt eng p_isfile b))),
          eng\<lparr>m_isfile := p_isfile\<rparr>)"
  using assms
  by (simp add: calculate_def Let_def deflate_readable deflate1_readable bindE_def unat_min unat_max)

theorem calculate_formula_witness:
  "readable (sample_runtime squares Map.empty 1 (\<lambda>_. 0) (\<lambda>_. 0) []) False ''a''
   \<and> readable (sample_runtime squares Map.empty 1 (\<lambda>_. 0) (\<lambda>_. 0) []) False ''bc''
   \<and> calculate (sample_runtime squares Map.empty 1 (\<lambda>_. 0) (\<lambda>_. 0) []) ncd_default ''a'' ''bc'' False
       = Inr (2, ncd_default\<lparr>m_isfile := False\<rparr>)"
  using calculate_formula [of "sample_runtime squares Map.empty 1 (\<lambda>_. 0) (\<lambda>_. 0) []" False "''a''" "''bc''" ncd_default]
  by (simp add: readable_def size_of_def size_of2_def source_bytes_def l_deflate_def
      ncd_default_def ncd_init_def sample_runtime_def squares_def)

text \<open>
  C2, as stated, fails in two places. \<open>unsymmetric\<close> bounds its entries by 1 from above
  only, and an entry is negative when the two items together compress to less than the
  smaller of them alone: with the sizes 25, 25 and 20 the entry is \<open>- 1 / 5\<close>. And the
  threads of \<open>symmetric\<close> write no diagonal entry: where the storage of the matrix held 7,
  the entry \<open>(0, 0)\<close> returned is 7.
\<close>

theorem batch_entries_range_counterexample:
  "entry (unsymmetric (sample_runtime shrinking Map.empty 1 (\<lambda>_. 0) (\<lambda>_. 0) []) ncd_default
            [''a'', ''b''] False) 0 1 = Some (- 1 / 5)
   \<and> entry (symmetric (sample_runtime framed Map.empty 2 (\<lambda>_. 0) (\<lambda>_. 7) [0, 1]) ncd_default
            [''a'', ''b''] False) 0 0 = Some 7"
proof -
  let ?rt = "sample_runtime shrinking Map.empty 1 (\<lambda>_. 0) (\<lambda>_. 0) [] :: real runtime"
  let ?rt2 = "sample_runtime framed Map.empty 2 (\<lambda>_. 0) (\<lambda>_. 7) [0, 1] :: real runtime"
  let ?xs = "[''a'', ''b'']"
  have ne: "?xs \<noteq> []" by simp
  have rd: "\<forall>k < length ?xs. readable ?rt False (?xs ! k)" by (rule two_items_readable)
  have rd2: "\<forall>k < length ?xs. readable ?rt2 False (?xs ! k)" by (rule two_items_readable)
  have par: "1 < hardware_concurrency ?rt2" by simp
  from unsymmetric_result [OF ne rd, of ncd_default]
  obtain st :: "real unsymmetric_locals" where run: "unsymmetric ?rt ncd_default ?xs False
        = Inr (l_distances st, ncd_default\<lparr>m_isfile := False\<rparr>)"
    and m: "\<forall>a b. l_distances st (a, b) =
           (if a < length ?xs \<and> b < length ?xs
            then Some (unsymmetric_entry ?rt ncd_default False ?xs a b) else None)"
    by (elim exE conjE) (rule that; assumption)
  from symmetric_entries_threads [OF ne rd2 par, of ncd_default]
  obtain m2 e2 where run2: "symmetric ?rt2 ncd_default ?xs False = Inr (m2, e2)"
    and d2: "\<forall>a < length ?xs. m2 (a, a) = Some (matrix_storage ?rt2 (a, a))"
    by (elim exE conjE) (rule that; assumption)
  have "l_distances st (0, 1) = Some (- 1 / 5)"
    using m [rule_format, of 0 1]
    by (simp add: unsymmetric_entry_def clamped_distance_def sample_sizes shrinking_def)
  moreover have "m2 (0, 0) = Some 7"
    using d2 [rule_format, of 0] by simp
  ultimately show ?thesis unfolding entry_def run run2 by simp
qed

text \<open>
  C2, amended. For a batch of items that \<open>deflate\<close> accepts, none of compressed size 0:
  every entry of the matrix of \<open>unsymmetric\<close> is at most 1, its diagonal is 0, and an
  entry off the diagonal is at least 0 exactly when the two items together compress to
  at least the smaller of their sizes alone; every entry off the diagonal of the matrix
  of \<open>symmetric\<close> lies between 0 and 1, on the sequential and on the threaded path, and
  the sequential path has the diagonal 0. (Nothing is said here about the diagonal of
  the threaded path: see C3.)
\<close>

theorem batch_entries_range:
  fixes rt :: "('t::linordered_field) runtime"
  assumes ne: "p_strvec \<noteq> []"
    and rd: "\<forall>k < length p_strvec. readable rt p_isfile (p_strvec ! k)"
    and pos: "\<forall>k < length p_strvec. size_of rt eng p_isfile (p_strvec ! k) \<noteq> 0"
  shows "(\<exists>m e. unsymmetric rt eng p_strvec p_isfile = Inr (m, e)
          \<and> (\<forall>a < length p_strvec. \<forall>b < length p_strvec. \<exists>v. m (a, b) = Some v \<and> v \<le> 1
                \<and> (a = b \<longrightarrow> v = 0)
                \<and> (a \<noteq> b \<longrightarrow>
                     (0 \<le> v \<longleftrightarrow>
                        min (size_of rt eng p_isfile (p_strvec ! a)) (size_of rt eng p_isfile (p_strvec ! b))
                          \<le> size_of2 rt eng p_isfile (p_strvec ! a) (p_strvec ! b)))))
       \<and> (\<exists>m e. symmetric rt eng p_strvec p_isfile = Inr (m, e)
          \<and> (\<forall>a < length p_strvec. \<forall>b < length p_strvec. a \<noteq> b \<longrightarrow>
                (\<exists>v. symmetric_at m a b = Some v \<and> 0 \<le> v \<and> v \<le> 1))
          \<and> (\<not> 1 < hardware_concurrency rt \<longrightarrow>
                (\<forall>a < length p_strvec. symmetric_at m a a = Some 0)))"
proof
  let ?n = "length p_strvec"
  let ?sz = "\<lambda>k. size_of rt eng p_isfile (p_strvec ! k)"
  let ?sz2 = "\<lambda>a b. size_of2 rt eng p_isfile (p_strvec ! a) (p_strvec ! b)"
  from unsymmetric_result [OF ne rd, of eng]
  obtain st :: "'t unsymmetric_locals" where run: "unsymmetric rt eng p_strvec p_isfile
        = Inr (l_distances st, eng\<lparr>m_isfile := p_isfile\<rparr>)"
    and m: "\<forall>a b. l_distances st (a, b) =
           (if a < ?n \<and> b < ?n then Some (unsymmetric_entry rt eng p_isfile p_strvec a b) else None)"
    by (elim exE conjE) (rule that; assumption)
  have "\<exists>v. l_distances st (a, b) = Some v \<and> v \<le> 1 \<and> (a = b \<longrightarrow> v = 0)
          \<and> (a \<noteq> b \<longrightarrow> (0 \<le> v \<longleftrightarrow> min (?sz a) (?sz b) \<le> ?sz2 a b))"
    if ab: "a < ?n" "b < ?n" for a b
  proof (cases "a = b")
    case True
    then show ?thesis using m ab by (simp add: unsymmetric_entry_def)
  next
    case False
    have "?sz a \<noteq> 0" using pos ab by simp
    then have "0 < unat (?sz a)" by (simp add: unat_gt_0)
    then have mx: "0 < max (unat (?sz a)) (unat (?sz b))" by simp
    have "min (?sz a) (?sz b) \<le> ?sz2 a b \<longleftrightarrow> min (unat (?sz a)) (unat (?sz b)) \<le> unat (?sz2 a b)"
      by (simp add: word_le_nat_alt unat_min)
    then show ?thesis
      using False m ab clamped_distance_nonneg [OF mx, of "unat (?sz2 a b)"]
        clamped_distance_le [of "unat (?sz2 a b)" "unat (?sz a)" "unat (?sz b)"]
      by (simp add: unsymmetric_entry_def)
  qed
  then show "\<exists>m e. unsymmetric rt eng p_strvec p_isfile = Inr (m, e)
          \<and> (\<forall>a < ?n. \<forall>b < ?n. \<exists>v. m (a, b) = Some v \<and> v \<le> 1
                \<and> (a = b \<longrightarrow> v = 0)
                \<and> (a \<noteq> b \<longrightarrow> (0 \<le> v \<longleftrightarrow> min (?sz a) (?sz b) \<le> ?sz2 a b)))"
    using run by blast
next
  let ?n = "length p_strvec"
  let ?c = "\<lambda>k. if 1 < hardware_concurrency rt then parallel_cache rt eng p_isfile p_strvec k
               else size_of rt eng p_isfile (p_strvec ! k)"
  from symmetric_entries [OF ne rd, of eng]
  obtain m e where run: "symmetric rt eng p_strvec p_isfile = Inr (m, e)"
    and o: "\<forall>a b. a < b \<and> b < ?n \<longrightarrow>
           m (a, b) = Some (ncd_value (size_of2 rt eng p_isfile (p_strvec ! a) (p_strvec ! b)) (?c a) (?c b))"
    and d: "\<forall>a < ?n. m (a, a) = Some (if 1 < hardware_concurrency rt then matrix_storage rt (a, a) else 0)"
    by (elim exE conjE) (rule that; assumption)
  have off: "\<exists>v. symmetric_at m a b = Some v \<and> 0 \<le> v \<and> v \<le> 1"
    if ab: "a < ?n" "b < ?n" "a \<noteq> b" for a b
  proof (cases "a < b")
    case True
    then show ?thesis
      using o [rule_format, of a b] ab
      by (simp add: symmetric_atI ncd_value_range)
  next
    case False
    then have "b < a" using ab by simp
    then show ?thesis
      using o [rule_format, of b a] ab
      by (simp add: symmetric_atI ncd_value_range)
  qed
  have diag: "\<not> 1 < hardware_concurrency rt \<longrightarrow> (\<forall>a < ?n. symmetric_at m a a = Some 0)"
    using d by (simp add: symmetric_atI)
  show "\<exists>m e. symmetric rt eng p_strvec p_isfile = Inr (m, e)
          \<and> (\<forall>a < ?n. \<forall>b < ?n. a \<noteq> b \<longrightarrow> (\<exists>v. symmetric_at m a b = Some v \<and> 0 \<le> v \<and> v \<le> 1))
          \<and> (\<not> 1 < hardware_concurrency rt \<longrightarrow> (\<forall>a < ?n. symmetric_at m a a = Some 0))"
    using run off diag by blast
qed

theorem batch_entries_range_witness:
  "(\<exists>v. entry (unsymmetric (sample_runtime framed Map.empty 2 (\<lambda>_. 0) (\<lambda>_. 7) [1, 0]) ncd_default
                [''a'', ''b''] False) 1 0 = Some v \<and> 0 \<le> v \<and> v \<le> 1)
   \<and> (\<exists>v. entry (symmetric (sample_runtime framed Map.empty 2 (\<lambda>_. 0) (\<lambda>_. 7) [1, 0]) ncd_default
                [''a'', ''b''] False) 0 1 = Some v \<and> 0 \<le> v \<and> v \<le> 1)"
proof -
  let ?rt = "sample_runtime framed Map.empty 2 (\<lambda>_. 0) (\<lambda>_. 7) [1, 0] :: real runtime"
  let ?xs = "[''a'', ''b'']"
  have ne: "?xs \<noteq> []" by simp
  have rd: "\<forall>k < length ?xs. readable ?rt False (?xs ! k)" by (rule two_items_readable)
  have pos: "\<forall>k < length ?xs. size_of ?rt ncd_default False (?xs ! k) \<noteq> 0"
    by (auto simp: sample_sizes framed_def less_Suc_eq)
  note t = batch_entries_range [OF ne rd pos]
  from t obtain m1 e1 where u: "unsymmetric ?rt ncd_default ?xs False = Inr (m1, e1)"
    and u1: "\<forall>a < length ?xs. \<forall>b < length ?xs. \<exists>v. m1 (a, b) = Some v \<and> v \<le> 1
                \<and> (a = b \<longrightarrow> v = 0)
                \<and> (a \<noteq> b \<longrightarrow>
                     (0 \<le> v \<longleftrightarrow>
                        min (size_of ?rt ncd_default False (?xs ! a)) (size_of ?rt ncd_default False (?xs ! b))
                          \<le> size_of2 ?rt ncd_default False (?xs ! a) (?xs ! b)))"
    by (elim exE conjE) (rule that; assumption)
  from t obtain m2 e2 where s: "symmetric ?rt ncd_default ?xs False = Inr (m2, e2)"
    and s1: "\<forall>a < length ?xs. \<forall>b < length ?xs. a \<noteq> b \<longrightarrow>
                (\<exists>v. symmetric_at m2 a b = Some v \<and> 0 \<le> v \<and> v \<le> 1)"
    by (elim exE conjE) (rule that; assumption)
  have "\<exists>v. m1 (1, 0) = Some v \<and> 0 \<le> v \<and> v \<le> 1"
    using u1 [rule_format, of 1 0] by (auto simp: sample_sizes framed_def)
  moreover have "\<exists>v. m2 (0, 1) = Some v \<and> 0 \<le> v \<and> v \<le> 1"
    using s1 [rule_format, of 0 1] by (auto simp: symmetric_atI)
  ultimately show ?thesis
    unfolding entry_def u s by simp
qed

text \<open>
  C3. The diagonal of the matrix of \<open>unsymmetric\<close> is 0, and so is the diagonal of the
  matrix of \<open>symmetric\<close> on the sequential path. On the threaded path no pair of the
  wavefront is on the diagonal, no thread writes there, and the diagonal holds what the
  storage of the matrix held when it was constructed: 7 in the instance below, where
  the claim says 0.
\<close>

theorem diagonal_entries:
  assumes ne: "p_strvec \<noteq> []"
    and rd: "\<forall>k < length p_strvec. readable rt p_isfile (p_strvec ! k)"
  shows "(\<exists>m e. unsymmetric rt eng p_strvec p_isfile = Inr (m, e)
            \<and> (\<forall>a < length p_strvec. m (a, a) = Some 0))
       \<and> (\<exists>m e. symmetric rt eng p_strvec p_isfile = Inr (m, e)
            \<and> (\<forall>a < length p_strvec.
                  symmetric_at m a a =
                    Some (if 1 < hardware_concurrency rt then matrix_storage rt (a, a) else 0)))"
proof
  from unsymmetric_result [OF ne rd, of eng]
  obtain st :: "'a unsymmetric_locals" where run: "unsymmetric rt eng p_strvec p_isfile
        = Inr (l_distances st, eng\<lparr>m_isfile := p_isfile\<rparr>)"
    and m: "\<forall>a b. l_distances st (a, b) =
           (if a < length p_strvec \<and> b < length p_strvec
            then Some (unsymmetric_entry rt eng p_isfile p_strvec a b) else None)"
    by (elim exE conjE) (rule that; assumption)
  have "\<forall>a < length p_strvec. l_distances st (a, a) = Some 0"
    using m by (simp add: unsymmetric_entry_def)
  then show "\<exists>m e. unsymmetric rt eng p_strvec p_isfile = Inr (m, e)
            \<and> (\<forall>a < length p_strvec. m (a, a) = Some 0)"
    using run by blast
next
  from symmetric_entries [OF ne rd, of eng]
  obtain m e where run: "symmetric rt eng p_strvec p_isfile = Inr (m, e)"
    and d: "\<forall>a < length p_strvec.
        m (a, a) = Some (if 1 < hardware_concurrency rt then matrix_storage rt (a, a) else 0)"
    by (elim exE conjE) (rule that; assumption)
  show "\<exists>m e. symmetric rt eng p_strvec p_isfile = Inr (m, e)
            \<and> (\<forall>a < length p_strvec.
                  symmetric_at m a a =
                    Some (if 1 < hardware_concurrency rt then matrix_storage rt (a, a) else 0))"
    using run d by (auto simp: symmetric_atI)
qed

theorem diagonal_entries_witness:
  "entry (unsymmetric (sample_runtime framed Map.empty 2 (\<lambda>_. 0) (\<lambda>_. 7) [1, 0]) ncd_default
            [''a'', ''b''] False) 0 0 = Some 0
   \<and> entry (symmetric (sample_runtime framed Map.empty 1 (\<lambda>_. 0) (\<lambda>_. 7) []) ncd_default
            [''a'', ''b''] False) 0 0 = Some 0
   \<and> entry (symmetric (sample_runtime framed Map.empty 2 (\<lambda>_. 0) (\<lambda>_. 7) [1, 0]) ncd_default
            [''a'', ''b''] False) 0 0 = Some 7
   \<and> entry (symmetric (sample_runtime framed Map.empty 2 (\<lambda>_. 0) (\<lambda>_. 7) [1, 0]) ncd_default
            [''a'', ''b''] False) 1 1 = Some 7"
proof -
  let ?rt1 = "sample_runtime framed Map.empty 1 (\<lambda>_. 0) (\<lambda>_. 7) [] :: real runtime"
  let ?rt2 = "sample_runtime framed Map.empty 2 (\<lambda>_. 0) (\<lambda>_. 7) [1, 0] :: real runtime"
  let ?xs = "[''a'', ''b'']"
  have ne: "?xs \<noteq> []" by simp
  have rd1: "\<forall>k < length ?xs. readable ?rt1 False (?xs ! k)" by (rule two_items_readable)
  have rd2: "\<forall>k < length ?xs. readable ?rt2 False (?xs ! k)" by (rule two_items_readable)
  from diagonal_entries [OF ne rd2, of ncd_default]
  obtain m e where u: "unsymmetric ?rt2 ncd_default ?xs False = Inr (m, e)"
    and u0: "\<forall>a < length ?xs. m (a, a) = Some 0"
    by (elim exE conjE) (rule that; assumption)
  from diagonal_entries [OF ne rd1, of ncd_default]
  obtain m1 e1 where s1: "symmetric ?rt1 ncd_default ?xs False = Inr (m1, e1)"
    and d1: "\<forall>a < length ?xs. symmetric_at m1 a a =
                    Some (if 1 < hardware_concurrency ?rt1 then matrix_storage ?rt1 (a, a) else 0)"
    by (elim exE conjE) (rule that; assumption)
  from diagonal_entries [OF ne rd2, of ncd_default]
  obtain m2 e2 where s2: "symmetric ?rt2 ncd_default ?xs False = Inr (m2, e2)"
    and d2: "\<forall>a < length ?xs. symmetric_at m2 a a =
                    Some (if 1 < hardware_concurrency ?rt2 then matrix_storage ?rt2 (a, a) else 0)"
    by (elim exE conjE) (rule that; assumption)
  have "m (0, 0) = Some 0" using u0 by simp
  moreover have "m1 (0, 0) = Some 0" using d1 [rule_format, of 0] by (simp add: symmetric_atI)
  moreover have "m2 (0, 0) = Some 7" using d2 [rule_format, of 0] by (simp add: symmetric_atI)
  moreover have "m2 (1, 1) = Some 7" using d2 [rule_format, of 1] by (simp add: symmetric_atI)
  ultimately show ?thesis
    unfolding entry_def u s1 s2 by simp
qed

text \<open>
  C4. The same call on the sequential path (at most one hardware thread) and on the
  threaded path (\<open>T\<close> hardware threads, any schedule): both return; the sequential
  matrix has the diagonal 0 and the threaded one has on the diagonal what the storage of
  the matrix held, so the two differ wherever that is not 0 (0 against 7 in the instance
  below); off the diagonal they agree when the storage of the cache held 0 everywhere.
\<close>

theorem sequential_versus_threads:
  assumes ne: "p_strvec \<noteq> []"
    and rd: "\<forall>k < length p_strvec. readable rt p_isfile (p_strvec ! k)"
    and seq: "\<not> 1 < hardware_concurrency rt"
    and par: "1 < T"
  shows "\<exists>m1 e1 m2 e2.
      symmetric rt eng p_strvec p_isfile = Inr (m1, e1)
    \<and> symmetric (rt\<lparr>hardware_concurrency := T, schedule := sch\<rparr>) eng p_strvec p_isfile = Inr (m2, e2)
    \<and> (\<forall>a < length p_strvec. m1 (a, a) = Some 0 \<and> m2 (a, a) = Some (matrix_storage rt (a, a)))
    \<and> ((\<forall>k < length p_strvec. vector_storage rt k = 0) \<longrightarrow>
          (\<forall>a b. a < b \<and> b < length p_strvec \<longrightarrow> m1 (a, b) = m2 (a, b)))"
proof -
  let ?rt2 = "rt\<lparr>hardware_concurrency := T, schedule := sch\<rparr>"
  let ?n = "length p_strvec"
  have rd2: "\<forall>k < ?n. readable ?rt2 p_isfile (p_strvec ! k)" using rd by simp
  have par2: "1 < hardware_concurrency ?rt2" using par by simp
  from symmetric_entries_sequential [OF ne rd seq, of eng]
  obtain m1 e1 where r1: "symmetric rt eng p_strvec p_isfile = Inr (m1, e1)"
    and o1: "\<forall>a b. a < b \<and> b < ?n \<longrightarrow>
           m1 (a, b) = Some (ncd_value (size_of2 rt eng p_isfile (p_strvec ! a) (p_strvec ! b))
              (size_of rt eng p_isfile (p_strvec ! a)) (size_of rt eng p_isfile (p_strvec ! b)))"
    and d1: "\<forall>a < ?n. m1 (a, a) = Some 0"
    by (elim exE conjE) (rule that; assumption)
  from symmetric_entries_threads [OF ne rd2 par2, of eng]
  obtain m2 e2 where r2: "symmetric ?rt2 eng p_strvec p_isfile = Inr (m2, e2)"
    and o2: "\<forall>a b. a < b \<and> b < ?n \<longrightarrow>
           m2 (a, b) = Some (ncd_value (size_of2 ?rt2 eng p_isfile (p_strvec ! a) (p_strvec ! b))
              (parallel_cache ?rt2 eng p_isfile p_strvec a) (parallel_cache ?rt2 eng p_isfile p_strvec b))"
    and d2: "\<forall>a < ?n. m2 (a, a) = Some (matrix_storage ?rt2 (a, a))"
    by (elim exE conjE) (rule that; assumption)
  have d: "\<forall>a < ?n. m1 (a, a) = Some 0 \<and> m2 (a, a) = Some (matrix_storage rt (a, a))"
    using d1 d2 by simp
  have "\<forall>a b. a < b \<and> b < ?n \<longrightarrow> m1 (a, b) = m2 (a, b)"
    if "\<forall>k < ?n. vector_storage rt k = 0"
    using that o1 o2 by (simp add: parallel_cache_def)
  then show ?thesis using r1 r2 d by blast
qed

theorem sequential_versus_threads_witness:
  "entry (symmetric (sample_runtime framed Map.empty 1 (\<lambda>_. 0) (\<lambda>_. 7) []) ncd_default
            [''a'', ''b''] False) 0 0 = Some 0
   \<and> entry (symmetric ((sample_runtime framed Map.empty 1 (\<lambda>_. 0) (\<lambda>_. 7) [])
                        \<lparr>hardware_concurrency := 2, schedule := [1, 0]\<rparr>) ncd_default
            [''a'', ''b''] False) 0 0 = Some 7
   \<and> entry (symmetric (sample_runtime framed Map.empty 1 (\<lambda>_. 0) (\<lambda>_. 7) []) ncd_default
            [''a'', ''b''] False) 0 1
     = entry (symmetric ((sample_runtime framed Map.empty 1 (\<lambda>_. 0) (\<lambda>_. 7) [])
                        \<lparr>hardware_concurrency := 2, schedule := [1, 0]\<rparr>) ncd_default
            [''a'', ''b''] False) 0 1"
proof -
  let ?rt = "sample_runtime framed Map.empty 1 (\<lambda>_. 0) (\<lambda>_. 7) [] :: real runtime"
  let ?rt2 = "?rt\<lparr>hardware_concurrency := 2, schedule := [1, 0]\<rparr>"
  let ?xs = "[''a'', ''b'']"
  have ne: "?xs \<noteq> []" by simp
  have rd: "\<forall>k < length ?xs. readable ?rt False (?xs ! k)" by (rule two_items_readable)
  have seq: "\<not> 1 < hardware_concurrency ?rt" by simp
  have par: "(1::nat) < 2" by simp
  from sequential_versus_threads [OF ne rd seq par, of ncd_default "[1, 0]"]
  obtain m1 e1 m2 e2 where r1: "symmetric ?rt ncd_default ?xs False = Inr (m1, e1)"
    and r2: "symmetric ?rt2 ncd_default ?xs False = Inr (m2, e2)"
    and d: "\<forall>a < length ?xs. m1 (a, a) = Some 0 \<and> m2 (a, a) = Some (matrix_storage ?rt (a, a))"
    and o: "(\<forall>k < length ?xs. vector_storage ?rt k = 0) \<longrightarrow>
          (\<forall>a b. a < b \<and> b < length ?xs \<longrightarrow> m1 (a, b) = m2 (a, b))"
    by (elim exE conjE) (rule that; assumption)
  have "m1 (0, 0) = Some 0" "m2 (0, 0) = Some 7" using d [rule_format, of 0] by simp_all
  moreover have "m1 (0, 1) = m2 (0, 1)" using o by simp
  ultimately show ?thesis unfolding entry_def r1 r2 by simp
qed

text \<open>
  Off the diagonal the two paths differ as well when the storage of the cache is not 0:
  the threads take an entry that is not 0 for a size. With three items of size 21 and
  the entry 5 in the storage at position 1, the sequential entry \<open>(0, 1)\<close> is \<open>1 / 21\<close>
  and the threaded one \<open>17 / 21\<close>.
\<close>

lemma threads_stale_cache_example:
  "entry (symmetric (sample_runtime framed Map.empty 1 (\<lambda>k. if k = 1 then 5 else 0) (\<lambda>_. 0) [])
            ncd_default [''a'', ''b'', ''c''] False) 0 1 = Some (1 / 21)
   \<and> entry (symmetric (sample_runtime framed Map.empty 2 (\<lambda>k. if k = 1 then 5 else 0) (\<lambda>_. 0) [])
            ncd_default [''a'', ''b'', ''c''] False) 0 1 = Some (17 / 21)"
proof -
  let ?rt1 = "sample_runtime framed Map.empty 1 (\<lambda>k. if k = 1 then 5 else 0) (\<lambda>_. 0) [] :: real runtime"
  let ?rt2 = "sample_runtime framed Map.empty 2 (\<lambda>k. if k = 1 then 5 else 0) (\<lambda>_. 0) [] :: real runtime"
  let ?xs = "[''a'', ''b'', ''c'']"
  have ne: "?xs \<noteq> []" by simp
  have rd1: "\<forall>k < length ?xs. readable ?rt1 False (?xs ! k)" by (rule three_items_readable)
  have rd2: "\<forall>k < length ?xs. readable ?rt2 False (?xs ! k)" by (rule three_items_readable)
  have seq: "\<not> 1 < hardware_concurrency ?rt1" and par: "1 < hardware_concurrency ?rt2" by simp_all
  from symmetric_entries_sequential [OF ne rd1 seq, of ncd_default]
  obtain m1 e1 where r1: "symmetric ?rt1 ncd_default ?xs False = Inr (m1, e1)"
    and o1: "\<forall>a b. a < b \<and> b < length ?xs \<longrightarrow>
           m1 (a, b) = Some (ncd_value (size_of2 ?rt1 ncd_default False (?xs ! a) (?xs ! b))
              (size_of ?rt1 ncd_default False (?xs ! a)) (size_of ?rt1 ncd_default False (?xs ! b)))"
    by (elim exE conjE) (rule that; assumption)
  from symmetric_entries_threads [OF ne rd2 par, of ncd_default]
  obtain m2 e2 where r2: "symmetric ?rt2 ncd_default ?xs False = Inr (m2, e2)"
    and o2: "\<forall>a b. a < b \<and> b < length ?xs \<longrightarrow>
           m2 (a, b) = Some (ncd_value (size_of2 ?rt2 ncd_default False (?xs ! a) (?xs ! b))
              (parallel_cache ?rt2 ncd_default False ?xs a) (parallel_cache ?rt2 ncd_default False ?xs b))"
    by (elim exE conjE) (rule that; assumption)
  have "m1 (0, 1) = Some (1 / 21)"
    using o1 [rule_format, of 0 1] by (simp add: sample_sizes framed_def ncd_value_def)
  moreover have "m2 (0, 1) = Some (17 / 21)"
    using o2 [rule_format, of 0 1]
    by (simp add: sample_sizes framed_def ncd_value_def parallel_cache_def)
  ultimately show ?thesis unfolding entry_def r1 r2 by simp
qed

text \<open>
  C5. For at least one item and at least one thread, the wavefront index lists the
  pairs in the order of the anti-diagonals, gives the
  pair number \<open>k\<close> the lane \<open>k mod T\<close>, holds every pair \<open>(i, j)\<close> with \<open>i < j < N\<close> once, and
  so puts each of them into the range of exactly one thread, once.
\<close>

theorem wavefront_partition:
  assumes N: "1 \<le> N" and T: "1 \<le> T"
  shows "map snd (m_wavefront (getWavefrontIndex N T eng)) = antidiagonals N
    \<and> (\<forall>k < length (antidiagonals N). fst (m_wavefront (getWavefrontIndex N T eng) ! k) = k mod T)
    \<and> distinct (antidiagonals N)
    \<and> set (antidiagonals N) = {(i, j). i < j \<and> j < N}
    \<and> (\<forall>i j. i < j \<and> j < N \<longrightarrow>
          (\<exists>!l. l < T \<and> (i, j) \<in> set (wavefront_range (m_wavefront (getWavefrontIndex N T eng)) l)))
    \<and> (\<forall>l. distinct (wavefront_range (m_wavefront (getWavefrontIndex N T eng)) l))"
proof -
  let ?idx = "m_wavefront (getWavefrontIndex N T eng)"
  have idx: "?idx = lanes_of T 0 (antidiagonals N)" by (rule getWavefrontIndex_lanes)
  have snd: "map snd ?idx = antidiagonals N" by (simp add: idx lanes_of_snd)
  have key: "\<forall>k < length (antidiagonals N). fst (?idx ! k) = k mod T"
    by (simp add: idx lanes_of_nth)
  have dist: "distinct (map snd ?idx)" by (simp add: snd antidiagonals_distinct)
  have one: "\<exists>!l. l < T \<and> (i, j) \<in> set (wavefront_range ?idx l)" if "i < j \<and> j < N" for i j
  proof -
    have "(i, j) \<in> set (map snd ?idx)" using that by (simp add: snd antidiagonals_set)
    then obtain l where l: "(l, (i, j)) \<in> set ?idx" by auto
    then have "l < T" using lanes_of_key [of T "(l, (i, j))" 0 "antidiagonals N"] T
      by (simp add: idx)
    then show ?thesis
      using l distinct_snd_key [OF dist] by (auto simp: wavefront_range_mem)
  qed
  show ?thesis
    using snd key antidiagonals_distinct antidiagonals_set one wavefront_range_distinct [OF dist]
    by blast
qed

theorem wavefront_partition_witness:
  "(1::nat) \<le> 4 \<and> (1::nat) \<le> 2
   \<and> map snd (m_wavefront (getWavefrontIndex 4 2 (ncd_default :: real ncd)))
       = [(0, 3), (0, 2), (1, 3), (0, 1), (1, 2), (2, 3)]
   \<and> wavefront_range (m_wavefront (getWavefrontIndex 4 2 (ncd_default :: real ncd))) 0
       = [(0, 3), (1, 3), (1, 2)]
   \<and> wavefront_range (m_wavefront (getWavefrontIndex 4 2 (ncd_default :: real ncd))) 1
       = [(0, 2), (0, 1), (2, 3)]"
proof -
  have "map snd (m_wavefront (getWavefrontIndex 4 2 (ncd_default :: real ncd))) = antidiagonals 4"
    using wavefront_partition [of 4 2 "ncd_default :: real ncd"] by simp
  moreover have "antidiagonals 4 = [(0, 3), (0, 2), (1, 3), (0, 1), (1, 2), (2, 3)]"
    by (simp add: antidiagonals_def upt_rec)
  moreover have "m_wavefront (getWavefrontIndex 4 2 (ncd_default :: real ncd))
      = [(0, (0, 3)), (1, (0, 2)), (0, (1, 3)), (1, (0, 1)), (0, (1, 2)), (1, (2, 3))]"
    by (simp add: getWavefrontIndex_def wavefront_row_def wavefront_insert_def upt_rec)
  ultimately show ?thesis
    by (simp add: wavefront_range_def)
qed

text \<open>
  C6. For a batch of items that \<open>deflate\<close> accepts, \<open>unsymmetric\<close> returns, and the calls
  of \<open>deflate\<close> it has made are pairwise distinct: one for every item alone, and one for
  every ordered pair of two different positions, so both directions of every pair. The
  cache holds the size of every item, and the entry of two different positions is the
  formula on the sizes of that direction, bounded by 1 from above.
\<close>

theorem unsymmetric_calls:
  assumes "p_strvec \<noteq> []"
    and "\<forall>k < length p_strvec. readable rt p_isfile (p_strvec ! k)"
  shows "\<exists>st e. unsymmetric_run rt eng p_strvec p_isfile = Inr (st, e)
     \<and> unsymmetric rt eng p_strvec p_isfile = Inr (l_distances st, e)
     \<and> distinct (l_calls st)
     \<and> set (l_calls st) = {deflate_item k | k. k < length p_strvec}
          \<union> {deflate_items a b | a b. a < length p_strvec \<and> b < length p_strvec \<and> a \<noteq> b}
     \<and> (\<forall>k < length p_strvec. l_cache st ! k = size_of rt eng p_isfile (p_strvec ! k))
     \<and> (\<forall>a < length p_strvec. \<forall>b < length p_strvec. a \<noteq> b \<longrightarrow>
           l_distances st (a, b) =
             Some (min ((of_nat (unat (size_of2 rt eng p_isfile (p_strvec ! a) (p_strvec ! b)))
                          - of_nat (min (unat (size_of rt eng p_isfile (p_strvec ! a)))
                                        (unat (size_of rt eng p_isfile (p_strvec ! b)))))
                        / of_nat (max (unat (size_of rt eng p_isfile (p_strvec ! a)))
                                      (unat (size_of rt eng p_isfile (p_strvec ! b))))) 1))"
proof -
  from unsymmetric_result [OF assms, of eng]
  obtain st where st: "unsymmetric_run rt eng p_strvec p_isfile = Inr (st, eng\<lparr>m_isfile := p_isfile\<rparr>)"
    "unsymmetric rt eng p_strvec p_isfile = Inr (l_distances st, eng\<lparr>m_isfile := p_isfile\<rparr>)"
    "\<forall>a b. l_distances st (a, b) =
           (if a < length p_strvec \<and> b < length p_strvec
            then Some (unsymmetric_entry rt eng p_isfile p_strvec a b) else None)"
    "\<forall>k < length p_strvec. l_cache st ! k = size_of rt eng p_isfile (p_strvec ! k)"
    "distinct (l_calls st)"
    "\<forall>c. c \<in> set (l_calls st) \<longleftrightarrow>
           (case c of deflate_item k \<Rightarrow> k < length p_strvec
            | deflate_items a b \<Rightarrow> a < length p_strvec \<and> b < length p_strvec \<and> a \<noteq> b)"
    by blast
  have calls: "set (l_calls st) = {deflate_item k | k. k < length p_strvec}
          \<union> {deflate_items a b | a b. a < length p_strvec \<and> b < length p_strvec \<and> a \<noteq> b}"
  proof (rule set_eqI)
    fix c show "c \<in> set (l_calls st) \<longleftrightarrow> c \<in> {deflate_item k | k. k < length p_strvec}
          \<union> {deflate_items a b | a b. a < length p_strvec \<and> b < length p_strvec \<and> a \<noteq> b}"
      using st(6) by (cases c) auto
  qed
  have m: "\<forall>a < length p_strvec. \<forall>b < length p_strvec. a \<noteq> b \<longrightarrow>
           l_distances st (a, b) =
             Some (min ((of_nat (unat (size_of2 rt eng p_isfile (p_strvec ! a) (p_strvec ! b)))
                          - of_nat (min (unat (size_of rt eng p_isfile (p_strvec ! a)))
                                        (unat (size_of rt eng p_isfile (p_strvec ! b)))))
                        / of_nat (max (unat (size_of rt eng p_isfile (p_strvec ! a)))
                                      (unat (size_of rt eng p_isfile (p_strvec ! b))))) 1)"
    using st(3) by (simp add: unsymmetric_entry_def clamped_distance_def)
  show ?thesis using st(1,2,4,5) calls m by blast
qed

theorem unsymmetric_calls_witness:
  "\<exists>st. locals_after (unsymmetric_run (sample_runtime framed Map.empty 1 (\<lambda>_. 0) (\<lambda>_. 0) [])
              ncd_default [''a'', ''b''] False) = Some st
     \<and> distinct (l_calls st)
     \<and> set (l_calls st) = {deflate_item 0, deflate_item 1, deflate_items 0 1, deflate_items 1 0}
     \<and> l_cache st ! 0 = 21 \<and> l_cache st ! 1 = 21
     \<and> l_distances st (0, 1) = Some (1 / 21) \<and> l_distances st (1, 0) = Some (1 / 21)"
proof -
  let ?rt = "sample_runtime framed Map.empty 1 (\<lambda>_. 0) (\<lambda>_. 0) [] :: real runtime"
  let ?xs = "[''a'', ''b'']"
  have ne: "?xs \<noteq> []" by simp
  have rd: "\<forall>k < length ?xs. readable ?rt False (?xs ! k)" by (rule two_items_readable)
  from unsymmetric_calls [OF ne rd, of ncd_default]
  obtain st e where run: "unsymmetric_run ?rt ncd_default ?xs False = Inr (st, e)"
    and d: "distinct (l_calls st)"
    and s: "set (l_calls st) = {deflate_item k | k. k < length ?xs}
          \<union> {deflate_items a b | a b. a < length ?xs \<and> b < length ?xs \<and> a \<noteq> b}"
    and c: "\<forall>k < length ?xs. l_cache st ! k = size_of ?rt ncd_default False (?xs ! k)"
    and m: "\<forall>a < length ?xs. \<forall>b < length ?xs. a \<noteq> b \<longrightarrow>
           l_distances st (a, b) =
             Some (min ((of_nat (unat (size_of2 ?rt ncd_default False (?xs ! a) (?xs ! b)))
                          - of_nat (min (unat (size_of ?rt ncd_default False (?xs ! a)))
                                        (unat (size_of ?rt ncd_default False (?xs ! b)))))
                        / of_nat (max (unat (size_of ?rt ncd_default False (?xs ! a)))
                                      (unat (size_of ?rt ncd_default False (?xs ! b))))) 1)"
    by (elim exE conjE) (rule that; assumption)
  have s': "set (l_calls st) = {deflate_item 0, deflate_item 1, deflate_items 0 1, deflate_items 1 0}"
    unfolding s by (auto simp: less_Suc_eq numeral_2_eq_2)
  have c0: "l_cache st ! 0 = 21" and c1: "l_cache st ! 1 = 21"
    using c by (simp_all add: sample_sizes framed_def)
  have m01: "l_distances st (0, 1) = Some (1 / 21)"
    using m [rule_format, of 0 1] by (simp add: sample_sizes framed_def)
  have m10: "l_distances st (1, 0) = Some (1 / 21)"
    using m [rule_format, of 1 0] by (simp add: sample_sizes framed_def)
  show ?thesis
    using run d s' c0 c1 m01 m10 by (simp add: locals_after_def)
qed

text \<open>
  C7. On the empty batch \<open>unsymmetric\<close> and \<open>symmetric\<close> throw \<open>exception::parameter\<close>
  (the vector size must be greater than zero) and return no matrix; the throw is the
  first statement of both.
\<close>

theorem empty_batch:
  "unsymmetric rt eng [] p_isfile = Inl (parameter ''vector size must be greater than zero'')
   \<and> symmetric rt eng [] p_isfile = Inl (parameter ''vector size must be greater than zero'')"
  by (simp add: unsymmetric_def unsymmetric_run_def symmetric_def bindE_def)

text \<open>
  C8, as stated, fails: \<open>deflate\<close> tests its first argument, the string, and nothing
  else for emptiness. With the file flag, the empty file \<open>e\<close> gives an empty buffer and
  \<open>deflate\<close> returns 20, alone and as the second item; without the flag, the empty second
  string (the default of the call with one argument) gives an empty buffer and
  \<open>deflate\<close> returns 21.
\<close>

theorem deflate_empty_buffer_counterexample:
  "source_bytes (sample_runtime framed sample_files 1 (\<lambda>_. 0) (\<lambda>_. 0) []) True ''e'' = []
   \<and> deflate1 (sample_runtime framed sample_files 1 (\<lambda>_. 0) (\<lambda>_. 0) [])
        (ncd_default\<lparr>m_isfile := True\<rparr>) ''e'' = Inr 20
   \<and> deflate (sample_runtime framed sample_files 1 (\<lambda>_. 0) (\<lambda>_. 0) [])
        (ncd_default\<lparr>m_isfile := True\<rparr>) ''f'' ''e'' = Inr 22
   \<and> source_bytes (sample_runtime framed sample_files 1 (\<lambda>_. 0) (\<lambda>_. 0) []) False [] = []
   \<and> deflate (sample_runtime framed sample_files 1 (\<lambda>_. 0) (\<lambda>_. 0) [])
        ncd_default ''a'' [] = Inr 21"
  by (simp add: source_bytes_def deflate1_def deflate_def l_deflate_def sample_runtime_def
      sample_files_def ncd_default_def ncd_init_def framed_def istream_iterator_def isspace_def)

text \<open>
  C8, amended. \<open>deflate\<close> throws \<open>exception::parameter\<close> for the string size exactly when
  its first argument is the empty string; otherwise it throws \<open>exception::parameter\<close>
  for the file exactly when the file flag is set and the first path does not open, or
  the second argument is not empty and does not open; otherwise it returns the size of
  the bytes of the first item followed by those of a second argument that is not empty.
\<close>

theorem deflate_failures:
  "deflate rt eng a b =
     (if a = [] then Inl (parameter ''string size must be greater than zero'')
      else if m_isfile eng \<and> (ifstream rt a = None \<or> (b \<noteq> [] \<and> ifstream rt b = None))
        then Inl (parameter ''file can not be opened'')
      else Inr (l_deflate rt eng (source_bytes rt (m_isfile eng) a @
                  (if b = [] then [] else source_bytes rt (m_isfile eng) b))))"
  by (rule deflate_cases)

theorem deflate_failures_witness:
  "deflate (sample_runtime framed sample_files 1 (\<lambda>_. 0) (\<lambda>_. 0) [])
        (ncd_default\<lparr>m_isfile := True\<rparr>) [] ''f'' = Inl (parameter ''string size must be greater than zero'')
   \<and> deflate (sample_runtime framed sample_files 1 (\<lambda>_. 0) (\<lambda>_. 0) [])
        (ncd_default\<lparr>m_isfile := True\<rparr>) ''f'' ''g'' = Inl (parameter ''file can not be opened'')
   \<and> deflate (sample_runtime framed sample_files 1 (\<lambda>_. 0) (\<lambda>_. 0) [])
        (ncd_default\<lparr>m_isfile := True\<rparr>) ''g'' [] = Inl (parameter ''file can not be opened'')
   \<and> deflate (sample_runtime framed sample_files 1 (\<lambda>_. 0) (\<lambda>_. 0) [])
        (ncd_default\<lparr>m_isfile := True\<rparr>) ''f'' ''f'' = Inr 24"
  using deflate_failures [of "sample_runtime framed sample_files 1 (\<lambda>_. 0) (\<lambda>_. 0) []"
        "ncd_default\<lparr>m_isfile := True\<rparr>" "[]" "''f''"]
    deflate_failures [of "sample_runtime framed sample_files 1 (\<lambda>_. 0) (\<lambda>_. 0) []"
        "ncd_default\<lparr>m_isfile := True\<rparr>" "''f''" "''g''"]
    deflate_failures [of "sample_runtime framed sample_files 1 (\<lambda>_. 0) (\<lambda>_. 0) []"
        "ncd_default\<lparr>m_isfile := True\<rparr>" "''g''" "[]"]
    deflate_failures [of "sample_runtime framed sample_files 1 (\<lambda>_. 0) (\<lambda>_. 0) []"
        "ncd_default\<lparr>m_isfile := True\<rparr>" "''f''" "''f''"]
  by (simp add: source_bytes_def l_deflate_def sample_runtime_def
      sample_files_def ncd_default_def ncd_init_def framed_def istream_iterator_def isspace_def)

text \<open>
  C9, as stated, fails: the cache, the matrix, the wavefront index and the copy of the
  items of \<open>symmetric\<close> are member variables, and they keep their values when the call
  has returned. After a call on two items a new engine, whose copy of the items and
  cache were empty, holds the two items and their sizes.
\<close>

theorem batch_state_counterexample:
  "map_option m_sources (engine_after (symmetric (sample_runtime framed Map.empty 1 (\<lambda>_. 0) (\<lambda>_. 0) [])
       ncd_default [''a'', ''b''] False)) = Some [''a'', ''b'']
   \<and> map_option m_cache (engine_after (symmetric (sample_runtime framed Map.empty 1 (\<lambda>_. 0) (\<lambda>_. 0) [])
       ncd_default [''a'', ''b''] False)) = Some [21, 21]
   \<and> m_sources (ncd_default :: real ncd) = [] \<and> m_cache (ncd_default :: real ncd) = []"
proof -
  let ?rt = "sample_runtime framed Map.empty 1 (\<lambda>_. 0) (\<lambda>_. 0) [] :: real runtime"
  let ?xs = "[''a'', ''b'']"
  have ne: "?xs \<noteq> []" by simp
  have rd: "\<forall>k < length ?xs. readable ?rt False (?xs ! k)" by (rule two_items_readable)
  have seq: "\<not> 1 < hardware_concurrency ?rt" by simp
  from symmetric_sequential_result [OF ne rd seq, of ncd_default]
  obtain e where r: "symmetric ?rt ncd_default ?xs False = Inr (m_symmetric e, e)"
    and fr: "e\<lparr>m_cache := ublas_vector ?rt (length ?xs),
             m_symmetric := ublas_symmetric_matrix ?rt (length ?xs)\<rparr>
         = symmetric_init ?rt ncd_default ?xs False"
    and c: "\<forall>k < length ?xs. m_cache e ! k = size_of ?rt ncd_default False (?xs ! k)"
    and len: "length (m_cache e) = length ?xs"
    by (elim exE conjE) (rule that; assumption)
  have src: "m_sources e = ?xs" using arg_cong [OF fr, of m_sources] by simp
  have "m_cache e ! 0 = 21" "m_cache e ! 1 = 21"
    using c by (simp_all add: sample_sizes framed_def)
  then have cache: "m_cache e = [21, 21]"
    using len by (simp add: list_eq_iff_nth_eq less_Suc_eq numeral_2_eq_2)
  show ?thesis
    unfolding engine_after_def r using src cache
    by (simp add: ncd_default_def ncd_init_def)
qed

text \<open>
  C9, amended. For a batch of items that \<open>deflate\<close> accepts: \<open>unsymmetric\<close> keeps its cache
  and matrix in local variables and returns the engine as it was but for the file flag.
  \<open>symmetric\<close> keeps its state in the members and discards nothing when it returns: the
  engine then holds the items and the file flag of the call, the matrix returned, an
  empty unsymmetric matrix and a cache with one entry for every item; on the parallel
  path also the wavefront partition of this batch, on the sequential path the wavefront
  index it held before the call. On the sequential path every cache entry is the size of
  its item and the diagonal of the matrix is 0. On the parallel path the cache entry of
  the first and of the last item, and of every item whose entry in the storage of the
  new cache was 0, is the size of the item; any other entry is what the storage held,
  and the diagonal of the matrix is what the storage of the new matrix held. So the
  matrix and the engine are determined by the arguments, the compressor configuration
  and, on the parallel path, the content of the storage the new cache and matrix get.
\<close>

theorem batch_state:
  assumes ne: "p_strvec \<noteq> []"
    and rd: "\<forall>k < length p_strvec. readable rt p_isfile (p_strvec ! k)"
  shows "(\<exists>m. unsymmetric rt eng p_strvec p_isfile = Inr (m, eng\<lparr>m_isfile := p_isfile\<rparr>))
     \<and> (\<exists>m. symmetric rt eng p_strvec p_isfile =
            Inr (m, eng\<lparr> m_sources := p_strvec, m_isfile := p_isfile,
                     m_cache := map (\<lambda>k. if 1 < hardware_concurrency rt
                                          then parallel_cache rt eng p_isfile p_strvec k
                                          else size_of rt eng p_isfile (p_strvec ! k))
                                    [0..<length p_strvec],
                     m_symmetric := m, m_unsymmetric := Map.empty,
                     m_wavefront := (if 1 < hardware_concurrency rt
                                     then lanes_of (hardware_concurrency rt) 0
                                            (antidiagonals (length p_strvec))
                                     else m_wavefront eng) \<rparr>)
         \<and> (\<forall>a b. m (a, b) =
               (if a < b \<and> b < length p_strvec
                then Some (ncd_value (size_of2 rt eng p_isfile (p_strvec ! a) (p_strvec ! b))
                       (if 1 < hardware_concurrency rt then parallel_cache rt eng p_isfile p_strvec a
                        else size_of rt eng p_isfile (p_strvec ! a))
                       (if 1 < hardware_concurrency rt then parallel_cache rt eng p_isfile p_strvec b
                        else size_of rt eng p_isfile (p_strvec ! b)))
                else if a = b \<and> b < length p_strvec
                then Some (if 1 < hardware_concurrency rt then matrix_storage rt (a, a) else 0)
                else None)))"
proof
  from unsymmetric_result [OF ne rd, of eng]
  obtain st :: "'a unsymmetric_locals" where "unsymmetric rt eng p_strvec p_isfile
        = Inr (l_distances st, eng\<lparr>m_isfile := p_isfile\<rparr>)"
    by (elim exE conjE) (rule that; assumption)
  then show "\<exists>m. unsymmetric rt eng p_strvec p_isfile = Inr (m, eng\<lparr>m_isfile := p_isfile\<rparr>)"
    by simp
next
  show "\<exists>m. symmetric rt eng p_strvec p_isfile =
            Inr (m, eng\<lparr> m_sources := p_strvec, m_isfile := p_isfile,
                     m_cache := map (\<lambda>k. if 1 < hardware_concurrency rt
                                          then parallel_cache rt eng p_isfile p_strvec k
                                          else size_of rt eng p_isfile (p_strvec ! k))
                                    [0..<length p_strvec],
                     m_symmetric := m, m_unsymmetric := Map.empty,
                     m_wavefront := (if 1 < hardware_concurrency rt
                                     then lanes_of (hardware_concurrency rt) 0
                                            (antidiagonals (length p_strvec))
                                     else m_wavefront eng) \<rparr>)
         \<and> (\<forall>a b. m (a, b) =
               (if a < b \<and> b < length p_strvec
                then Some (ncd_value (size_of2 rt eng p_isfile (p_strvec ! a) (p_strvec ! b))
                       (if 1 < hardware_concurrency rt then parallel_cache rt eng p_isfile p_strvec a
                        else size_of rt eng p_isfile (p_strvec ! a))
                       (if 1 < hardware_concurrency rt then parallel_cache rt eng p_isfile p_strvec b
                        else size_of rt eng p_isfile (p_strvec ! b)))
                else if a = b \<and> b < length p_strvec
                then Some (if 1 < hardware_concurrency rt then matrix_storage rt (a, a) else 0)
                else None))"
    by (rule symmetric_engine [OF ne rd])
qed

theorem batch_state_witness:
  "engine_after (unsymmetric (sample_runtime framed Map.empty 2 (\<lambda>_. 7) (\<lambda>_. 5) [0, 1])
        (ncd_default\<lparr>m_cache := [99], m_sources := [''z''], m_wavefront := [(5, (6, 7))]\<rparr>)
        [''a'', ''b'', ''c''] False)
     = Some (ncd_default\<lparr>m_cache := [99], m_sources := [''z''], m_wavefront := [(5, (6, 7))],
               m_isfile := False\<rparr>)
   \<and> map_option m_sources (engine_after (symmetric (sample_runtime framed Map.empty 2 (\<lambda>_. 7) (\<lambda>_. 5) [0, 1])
        (ncd_default\<lparr>m_cache := [99], m_sources := [''z''], m_wavefront := [(5, (6, 7))]\<rparr>)
        [''a'', ''b'', ''c''] False)) = Some [''a'', ''b'', ''c'']
   \<and> map_option m_cache (engine_after (symmetric (sample_runtime framed Map.empty 2 (\<lambda>_. 7) (\<lambda>_. 5) [0, 1])
        (ncd_default\<lparr>m_cache := [99], m_sources := [''z''], m_wavefront := [(5, (6, 7))]\<rparr>)
        [''a'', ''b'', ''c''] False)) = Some [21, 7, 21]
   \<and> map_option m_wavefront (engine_after (symmetric (sample_runtime framed Map.empty 2 (\<lambda>_. 7) (\<lambda>_. 5) [0, 1])
        (ncd_default\<lparr>m_cache := [99], m_sources := [''z''], m_wavefront := [(5, (6, 7))]\<rparr>)
        [''a'', ''b'', ''c''] False)) = Some [(0, (0, 2)), (1, (0, 1)), (0, (1, 2))]
   \<and> entry (symmetric (sample_runtime framed Map.empty 2 (\<lambda>_. 7) (\<lambda>_. 5) [0, 1])
        (ncd_default\<lparr>m_cache := [99], m_sources := [''z''], m_wavefront := [(5, (6, 7))]\<rparr>)
        [''a'', ''b'', ''c''] False) 1 1 = Some 5
   \<and> entry (symmetric (sample_runtime framed Map.empty 2 (\<lambda>_. 7) (\<lambda>_. 5) [0, 1])
        (ncd_default\<lparr>m_cache := [99], m_sources := [''z''], m_wavefront := [(5, (6, 7))]\<rparr>)
        [''a'', ''b'', ''c''] False) 0 1 = Some (5 / 7)
   \<and> map_option m_cache (engine_after (symmetric (sample_runtime framed Map.empty 1 (\<lambda>_. 7) (\<lambda>_. 5) [])
        (ncd_default\<lparr>m_cache := [99], m_sources := [''z''], m_wavefront := [(5, (6, 7))]\<rparr>)
        [''a'', ''b'', ''c''] False)) = Some [21, 21, 21]
   \<and> map_option m_wavefront (engine_after (symmetric (sample_runtime framed Map.empty 1 (\<lambda>_. 7) (\<lambda>_. 5) [])
        (ncd_default\<lparr>m_cache := [99], m_sources := [''z''], m_wavefront := [(5, (6, 7))]\<rparr>)
        [''a'', ''b'', ''c''] False)) = Some [(5, (6, 7))]
   \<and> entry (symmetric (sample_runtime framed Map.empty 1 (\<lambda>_. 7) (\<lambda>_. 5) [])
        (ncd_default\<lparr>m_cache := [99], m_sources := [''z''], m_wavefront := [(5, (6, 7))]\<rparr>)
        [''a'', ''b'', ''c''] False) 1 1 = Some 0"
proof -
  let ?rt = "sample_runtime framed Map.empty 2 (\<lambda>_. 7) (\<lambda>_. 5) [0, 1] :: real runtime"
  let ?rt1 = "sample_runtime framed Map.empty 1 (\<lambda>_. 7) (\<lambda>_. 5) [] :: real runtime"
  let ?xs = "[''a'', ''b'', ''c'']"
  let ?stale = "ncd_default\<lparr>m_cache := [99], m_sources := [''z''],
                   m_wavefront := [(5, (6, 7))]\<rparr> :: real ncd"
  have ne: "?xs \<noteq> []" by simp
  have rd: "\<forall>k < length ?xs. readable ?rt False (?xs ! k)" by (rule three_items_readable)
  have rd1: "\<forall>k < length ?xs. readable ?rt1 False (?xs ! k)" by (rule three_items_readable)
  have sz: "size_of rt ?stale = size_of rt ncd_default"
    "size_of2 rt ?stale = size_of2 rt ncd_default" for rt :: "real runtime"
    by (rule size_of_config; simp)+
  have up: "[0..<length ?xs] = [0, 1, 2]" by (simp add: upt_conv_Cons)
  have wave: "lanes_of 2 0 (antidiagonals (length ?xs)) = [(0, (0, 2)), (1, (0, 1)), (0, (1, 2))]"
    by (simp add: lanes_of_def antidiagonals_def upt_conv_Cons)
  note t = batch_state [OF ne rd, of ?stale]
  note t1 = batch_state [OF ne rd1, of ?stale]
  from t obtain m where u: "unsymmetric ?rt ?stale ?xs False = Inr (m, ?stale\<lparr>m_isfile := False\<rparr>)"
    by (elim exE conjE) (rule that; assumption)
  from t obtain m2 where s: "symmetric ?rt ?stale ?xs False =
        Inr (m2, ?stale\<lparr> m_sources := ?xs, m_isfile := False,
                     m_cache := map (\<lambda>k. if 1 < hardware_concurrency ?rt
                                          then parallel_cache ?rt ?stale False ?xs k
                                          else size_of ?rt ?stale False (?xs ! k))
                                    [0..<length ?xs],
                     m_symmetric := m2, m_unsymmetric := Map.empty,
                     m_wavefront := (if 1 < hardware_concurrency ?rt
                                     then lanes_of (hardware_concurrency ?rt) 0
                                            (antidiagonals (length ?xs))
                                     else m_wavefront ?stale) \<rparr>)"
    and mm: "\<forall>a b. m2 (a, b) =
               (if a < b \<and> b < length ?xs
                then Some (ncd_value (size_of2 ?rt ?stale False (?xs ! a) (?xs ! b))
                       (if 1 < hardware_concurrency ?rt then parallel_cache ?rt ?stale False ?xs a
                        else size_of ?rt ?stale False (?xs ! a))
                       (if 1 < hardware_concurrency ?rt then parallel_cache ?rt ?stale False ?xs b
                        else size_of ?rt ?stale False (?xs ! b)))
                else if a = b \<and> b < length ?xs
                then Some (if 1 < hardware_concurrency ?rt then matrix_storage ?rt (a, a) else 0)
                else None)"
    by (elim exE conjE) (rule that; assumption)
  from t1 obtain m3 where s1: "symmetric ?rt1 ?stale ?xs False =
        Inr (m3, ?stale\<lparr> m_sources := ?xs, m_isfile := False,
                     m_cache := map (\<lambda>k. if 1 < hardware_concurrency ?rt1
                                          then parallel_cache ?rt1 ?stale False ?xs k
                                          else size_of ?rt1 ?stale False (?xs ! k))
                                    [0..<length ?xs],
                     m_symmetric := m3, m_unsymmetric := Map.empty,
                     m_wavefront := (if 1 < hardware_concurrency ?rt1
                                     then lanes_of (hardware_concurrency ?rt1) 0
                                            (antidiagonals (length ?xs))
                                     else m_wavefront ?stale) \<rparr>)"
    and mm1: "\<forall>a b. m3 (a, b) =
               (if a < b \<and> b < length ?xs
                then Some (ncd_value (size_of2 ?rt1 ?stale False (?xs ! a) (?xs ! b))
                       (if 1 < hardware_concurrency ?rt1 then parallel_cache ?rt1 ?stale False ?xs a
                        else size_of ?rt1 ?stale False (?xs ! a))
                       (if 1 < hardware_concurrency ?rt1 then parallel_cache ?rt1 ?stale False ?xs b
                        else size_of ?rt1 ?stale False (?xs ! b)))
                else if a = b \<and> b < length ?xs
                then Some (if 1 < hardware_concurrency ?rt1 then matrix_storage ?rt1 (a, a) else 0)
                else None)"
    by (elim exE conjE) (rule that; assumption)
  have e11: "m2 (1, 1) = Some 5" and e01: "m2 (0, 1) = Some (5 / 7)"
    unfolding mm [rule_format]
    by (simp_all add: parallel_cache_def sz sample_sizes framed_def ncd_value_def)
  have f11: "m3 (1, 1) = Some 0"
    unfolding mm1 [rule_format] by simp
  show ?thesis
    unfolding entry_def engine_after_def u s s1 up
    using e11 e01 f11 wave
    by (simp add: parallel_cache_def sz sample_sizes framed_def)
qed



end
